theory Spec2Isabelle
  imports Complex_Main "HOL-Library.AList"
begin

section \<open>JavaScript numbers\<close>

text \<open>
  A JavaScript number is an IEEE-754 binary64 value: NaN, one of the two infinities, or
  a finite value, which is a rational.  The functions below compare numbers, pass them
  on, and read them from text (where the value read is rounded to binary64).  The two
  zeros are one value here, as they are for \<open><=\<close> and \<open>===\<close>.
\<close>

datatype jsnum = NaN | PosInf | NegInf | Fin rat

text \<open>The operator \<open><=\<close> on numbers: false as soon as one side is NaN.\<close>

fun jle :: "jsnum \<Rightarrow> jsnum \<Rightarrow> bool" where
  "jle NaN _ = False"
| "jle _ NaN = False"
| "jle NegInf _ = True"
| "jle _ PosInf = True"
| "jle (Fin a) (Fin b) = (a \<le> b)"
| "jle PosInf _ = False"
| "jle _ NegInf = False"

text \<open>The operator \<open><\<close> on numbers.\<close>

fun jlt :: "jsnum \<Rightarrow> jsnum \<Rightarrow> bool" where
  "jlt NaN _ = False"
| "jlt _ NaN = False"
| "jlt (Fin a) (Fin b) = (a < b)"
| "jlt PosInf _ = False"
| "jlt _ NegInf = False"
| "jlt NegInf _ = True"
| "jlt _ PosInf = True"

section \<open>JavaScript strings\<close>

text \<open>
  A string is a list of characters: the code units below 256.  White space is the seven
  characters of that range that \<^verbatim>\<open>trim\<close>, the pattern \<^verbatim>\<open>\s\<close>,
  \<^verbatim>\<open>parseFloat\<close> and \<^verbatim>\<open>Number\<close> all accept: tab, line feed, vertical
  tab, form feed, carriage return, space and the no-break space.  Case mapping is
  written for the 26 ASCII letters.  JavaScript also maps accented letters, which are
  above 127, to characters above 127 or (for the sharp s) to \<open>SS\<close>; none of these is a
  digit, a sign, a point, white space, or a letter that the functions below look for
  (the suffixes of readUploadedFile, the pattern and the table of parseStageOrdinal, the
  exponent mark of a number), so what the functions return is the same.
\<close>

definition lower_letters :: string where
  "lower_letters = ''abcdefghijklmnopqrstuvwxyz''"

definition upper_letters :: string where
  "upper_letters = ''ABCDEFGHIJKLMNOPQRSTUVWXYZ''"

definition toUpperChar :: "char \<Rightarrow> char" where
  "toUpperChar c = (case map_of (zip lower_letters upper_letters) c of Some u \<Rightarrow> u | None \<Rightarrow> c)"

definition toLowerChar :: "char \<Rightarrow> char" where
  "toLowerChar c = (case map_of (zip upper_letters lower_letters) c of Some l \<Rightarrow> l | None \<Rightarrow> c)"

definition toUpperCase :: "string \<Rightarrow> string" where
  "toUpperCase s = map toUpperChar s"

definition toLowerCase :: "string \<Rightarrow> string" where
  "toLowerCase s = map toLowerChar s"

definition isWhiteSpace :: "char \<Rightarrow> bool" where
  "isWhiteSpace c =
     (c \<in> set [CHR 0x09, CHR 0x0A, CHR 0x0B, CHR 0x0C, CHR 0x0D, CHR 0x20, CHR 0xA0])"

definition trimStart :: "string \<Rightarrow> string" where
  "trimStart s = dropWhile isWhiteSpace s"

definition trim :: "string \<Rightarrow> string" where
  "trim s = rev (dropWhile isWhiteSpace (rev (dropWhile isWhiteSpace s)))"

text \<open>\<^verbatim>\<open>s.endsWith(suffix)\<close> and \<^verbatim>\<open>s.includes(sub)\<close>.\<close>

definition endsWith :: "string \<Rightarrow> string \<Rightarrow> bool" where
  "endsWith s suffix = (length suffix \<le> length s \<and> drop (length s - length suffix) s = suffix)"

fun includes_str :: "string \<Rightarrow> string \<Rightarrow> bool" where
  "includes_str [] sub = (sub = [])"
| "includes_str (c # cs) sub = (take (length sub) (c # cs) = sub \<or> includes_str cs sub)"

text \<open>\<^verbatim>\<open>s.split('\n')\<close>: the result always has at least one element.\<close>

fun split_nl :: "string \<Rightarrow> string list" where
  "split_nl [] = [[]]"
| "split_nl (c # cs) =
     (if c = CHR 0x0A then [] # split_nl cs
      else (c # hd (split_nl cs)) # tl (split_nl cs))"

text \<open>\<^verbatim>\<open>parts.join(sep)\<close> on an array of strings.\<close>

fun join :: "string \<Rightarrow> string list \<Rightarrow> string" where
  "join sep [] = []"
| "join sep [x] = x"
| "join sep (x # y # ys) = x @ sep @ join sep (y # ys)"

section \<open>Reading numbers from strings\<close>

text \<open>
  \<open>round64\<close> is the binary64 value nearest to a rational (ties to even, overflow to an
  infinity): the value a numeric literal denotes.  \<open>ilog2 n\<close> is the position of the
  leading bit of \<open>n\<close>, and \<open>ilog2r a\<close> the binary exponent of a positive rational.
  With \<open>e\<close> the exponent (not below that of the subnormals), the value is rounded to
  a multiple \<open>n\<close> of \<open>2\<^sup>e\<^sup>-\<^sup>5\<^sup>2\<close>; it overflows when it reaches \<open>2\<^sup>1\<^sup>0\<^sup>2\<^sup>4\<close>, that is
  when \<open>e\<close> exceeds 1023 or \<open>n\<close> is rounded up to \<open>2\<^sup>5\<^sup>3\<close> at exponent 1023.
\<close>

fun ilog2 :: "nat \<Rightarrow> nat" where
  "ilog2 n = (if n < 2 then 0 else Suc (ilog2 (n div 2)))"

declare ilog2.simps [simp del]

definition clog2 :: "nat \<Rightarrow> nat" where
  "clog2 m = (if m \<le> 1 then 0 else Suc (ilog2 (m - 1)))"

definition ilog2r :: "rat \<Rightarrow> int" where
  "ilog2r a = (if 1 \<le> a then int (ilog2 (nat \<lfloor>a\<rfloor>)) else - int (clog2 (nat \<lceil>1 / a\<rceil>)))"

definition pow2 :: "int \<Rightarrow> rat" where
  "pow2 e = (if 0 \<le> e then 2 ^ nat e else 1 / 2 ^ nat (- e))"

definition round_half_even :: "rat \<Rightarrow> int" where
  "round_half_even x =
     (let f = \<lfloor>x\<rfloor>; d = x - of_int f
      in if d < 1 / 2 then f else if 1 / 2 < d then f + 1 else if even f then f else f + 1)"

definition round64 :: "rat \<Rightarrow> jsnum" where
  "round64 x =
     (if x = 0 then Fin 0
      else let a = \<bar>x\<bar>;
               e = max (ilog2r a) (- 1022);
               q = pow2 (e - 52);
               n = round_half_even (a / q)
           in if 1023 < e \<or> (e = 1023 \<and> n = 2 ^ 53) then (if x < 0 then NegInf else PosInf)
              else Fin (if x < 0 then - (of_int n * q) else of_int n * q))"

definition isDigit :: "char \<Rightarrow> bool" where
  "isDigit c = (c \<in> set ''0123456789'')"

definition digitVal :: "char \<Rightarrow> nat" where
  "digitVal c = (case map_of (zip ''0123456789abcdef'' [0 ..< 16]) (toLowerChar c) of
                   Some d \<Rightarrow> d | None \<Rightarrow> 0)"

text \<open>The value of a string of digits in a base, most significant digit first.\<close>

definition digitsVal :: "nat \<Rightarrow> string \<Rightarrow> nat" where
  "digitsVal base ds = foldl (\<lambda>a c. base * a + digitVal c) 0 ds"

text \<open>An optional sign: whether it is a minus, and the rest of the string.\<close>

fun scan_sign :: "string \<Rightarrow> bool \<times> string" where
  "scan_sign [] = (False, [])"
| "scan_sign (c # cs) =
     (if c = CHR ''-'' then (True, cs) else if c = CHR ''+'' then (False, cs) else (False, c # cs))"

text \<open>
  The exponent part of a decimal literal (\<open>e\<close> or \<open>E\<close>, an optional sign, one digit or
  more): its value and the rest; when there is no complete exponent part, 0 and the whole
  string.
\<close>

definition scan_exponent :: "string \<Rightarrow> int \<times> string" where
  "scan_exponent s =
     (case s of
        [] \<Rightarrow> (0, s)
      | c # cs \<Rightarrow>
          if c = CHR ''e'' \<or> c = CHR ''E'' then
            (let (neg, t) = scan_sign cs; ds = takeWhile isDigit t
             in if ds = [] then (0, s)
                else ((if neg then - int (digitsVal 10 ds) else int (digitsVal 10 ds)),
                      dropWhile isDigit t))
          else (0, s))"

definition pow10 :: "int \<Rightarrow> rat" where
  "pow10 e = (if 0 \<le> e then 10 ^ nat e else 1 / 10 ^ nat (- e))"

text \<open>
  The longest prefix that is an unsigned decimal literal other than \<open>Infinity\<close> (digits,
  then an optional point and digits, or a point and digits; then an optional exponent
  part): its mathematical value and the rest of the string, or \<open>None\<close> when no prefix
  is such a literal.
\<close>

definition scan_decimal :: "string \<Rightarrow> (rat \<times> string) option" where
  "scan_decimal s =
     (let ip = takeWhile isDigit s;
          r1 = dropWhile isDigit s;
          has_point = (r1 \<noteq> [] \<and> hd r1 = CHR ''.'');
          fp = (if has_point then takeWhile isDigit (tl r1) else []);
          r2 = (if has_point then dropWhile isDigit (tl r1) else r1)
      in if ip = [] \<and> fp = [] then None
         else let (ex, r3) = scan_exponent r2
              in Some (of_nat (digitsVal 10 (ip @ fp)) * pow10 (ex - int (length fp)), r3))"

text \<open>
  \<^verbatim>\<open>parseFloat(s)\<close>: leading white space is skipped, the longest prefix that is a
  signed decimal literal is read, and what follows it is ignored; NaN when there is no
  such prefix.
\<close>

definition parseFloat :: "string \<Rightarrow> jsnum" where
  "parseFloat s =
     (let (neg, u) = scan_sign (trimStart s)
      in if take 8 u = ''Infinity'' then (if neg then NegInf else PosInf)
         else case scan_decimal u of
                None \<Rightarrow> NaN
              | Some (v, rest) \<Rightarrow> round64 (if neg then - v else v))"

text \<open>
  The unsigned literals \<open>0x\<close>, \<open>0o\<close> and \<open>0b\<close> (either case of the letter), each with
  one digit or more of its base.
\<close>

definition isHexDigit :: "char \<Rightarrow> bool" where
  "isHexDigit c = (c \<in> set ''0123456789abcdefABCDEF'')"

definition isOctalDigit :: "char \<Rightarrow> bool" where
  "isOctalDigit c = (c \<in> set ''01234567'')"

definition isBinaryDigit :: "char \<Rightarrow> bool" where
  "isBinaryDigit c = (c \<in> set ''01'')"

definition scan_nondecimal :: "string \<Rightarrow> nat option" where
  "scan_nondecimal s =
     (case s of
        z # x # ds \<Rightarrow>
          if z = CHR ''0'' \<and> ds \<noteq> [] then
            (if toLowerChar x = CHR ''x'' \<and> list_all isHexDigit ds then Some (digitsVal 16 ds)
             else if toLowerChar x = CHR ''o'' \<and> list_all isOctalDigit ds then Some (digitsVal 8 ds)
             else if toLowerChar x = CHR ''b'' \<and> list_all isBinaryDigit ds then Some (digitsVal 2 ds)
             else None)
          else None
      | _ \<Rightarrow> None)"

text \<open>
  \<^verbatim>\<open>Number(s)\<close> on a string: white space is trimmed at both ends; the empty string
  is 0; otherwise the whole text must be a signed decimal literal, a signed \<open>Infinity\<close>,
  or an unsigned literal of base 16, 8 or 2; anything else is NaN.
\<close>

definition Number :: "string \<Rightarrow> jsnum" where
  "Number s =
     (let t = trim s
      in if t = [] then Fin 0
         else case scan_nondecimal t of
                Some n \<Rightarrow> round64 (of_nat n)
              | None \<Rightarrow>
                  (let (neg, u) = scan_sign t
                   in if u = ''Infinity'' then (if neg then NegInf else PosInf)
                      else case scan_decimal u of
                             Some (v, []) \<Rightarrow> round64 (if neg then - v else v)
                           | _ \<Rightarrow> NaN))"

text \<open>
  \<^verbatim>\<open>String(x)\<close> on a number.  The digits of a finite value are produced by the
  language's number formatting, which is not part of the program: it is the
  parameter \<open>fmt\<close>.
\<close>

definition String_num :: "(rat \<Rightarrow> string) \<Rightarrow> jsnum \<Rightarrow> string" where
  "String_num fmt x =
     (case x of NaN \<Rightarrow> ''NaN'' | PosInf \<Rightarrow> ''Infinity'' | NegInf \<Rightarrow> ''-Infinity'' | Fin r \<Rightarrow> fmt r)"

section \<open>parseStageOrdinal\<close>

definition ROMAN_MAP :: "(string \<times> int) list" where
  "ROMAN_MAP = [(''I'', 1), (''II'', 2), (''III'', 3), (''IV'', 4), (''V'', 5)]"

text \<open>The values the function receives: null, undefined, a number or a string.\<close>

datatype jsval = JNull | JUndefined | JNum jsnum | JStr string

definition String_val :: "(rat \<Rightarrow> string) \<Rightarrow> jsval \<Rightarrow> string" where
  "String_val fmt v =
     (case v of JNull \<Rightarrow> ''null'' | JUndefined \<Rightarrow> ''undefined''
      | JNum x \<Rightarrow> String_num fmt x | JStr s \<Rightarrow> s)"

text \<open>
  The pattern \<^verbatim>\<open>/Stage\s*([IVX]+)/i\<close>.  \<open>match_at s\<close> matches it at the start
  of \<open>s\<close> and gives the captured group: the five letters in either case, the white space
  that follows, then the longest run of the letters I, V, X in either case, which must
  not be empty.  Giving back white space cannot make the group match, so there is no
  other way to match at that position.  \<open>stage_match\<close> tries the positions from left to
  right, as \<^verbatim>\<open>s.match\<close> does, and gives the group of the first match.
\<close>

definition isIVX :: "char \<Rightarrow> bool" where
  "isIVX c = (toUpperChar c \<in> set ''IVX'')"

definition match_at :: "string \<Rightarrow> string option" where
  "match_at s =
     (if toUpperCase (take 5 s) = ''STAGE'' then
        (let g = takeWhile isIVX (dropWhile isWhiteSpace (drop 5 s))
         in if g = [] then None else Some g)
      else None)"

fun stage_match :: "string \<Rightarrow> string option" where
  "stage_match [] = None"
| "stage_match (c # cs) =
     (case match_at (c # cs) of Some g \<Rightarrow> Some g | None \<Rightarrow> stage_match cs)"

text \<open>
  \<^verbatim>\<open>ROMAN_MAP[roman] || 0\<close>: the table's value, or 0 when the key is absent (or
  the value is 0).  The table is an object literal, so a lookup and the test
  \<^verbatim>\<open>plain in ROMAN_MAP\<close> also see the names every object inherits (such as
  \<open>constructor\<close>); each of those has a lower-case letter, and both texts looked up are in
  upper case, so only the five keys can be found.
\<close>

definition roman_or_zero :: "string \<Rightarrow> jsnum" where
  "roman_or_zero roman =
     (case map_of ROMAN_MAP roman of
        Some v \<Rightarrow> if v = 0 then Fin 0 else Fin (of_int v)
      | None \<Rightarrow> Fin 0)"

definition parseStageOrdinal :: "(rat \<Rightarrow> string) \<Rightarrow> jsval \<Rightarrow> jsnum" where
  "parseStageOrdinal fmt stageVal =
     (if stageVal = JNull \<or> stageVal = JUndefined then Fin 0
      else if stageVal = JNum NaN then Fin 0
      else let s = String_val fmt stageVal
           in case stage_match s of
                Some g \<Rightarrow> roman_or_zero (toUpperCase g)
              | None \<Rightarrow>
                  (let plain = toUpperCase (trim s)
                   in case map_of ROMAN_MAP plain of
                        Some v \<Rightarrow> Fin (of_int v)
                      | None \<Rightarrow>
                          (let num = parseFloat plain
                           in if num = NaN then Fin 0 else num)))"

section \<open>parseCSVLine and parseCSV\<close>

text \<open>
  The scanner of one line: \<open>result\<close>, \<open>current\<close> and \<open>inQuotes\<close> are the three variables
  of the loop, and the first argument is what is left of the line.
\<close>

fun csv_scan :: "string \<Rightarrow> string list \<Rightarrow> string \<Rightarrow> bool \<Rightarrow> string list" where
  "csv_scan [] result current inQuotes = result @ [trim current]"
| "csv_scan (c # cs) result current inQuotes =
     (if c = CHR 0x22 then csv_scan cs result current (\<not> inQuotes)
      else if c = CHR '','' \<and> \<not> inQuotes then csv_scan cs (result @ [trim current]) [] inQuotes
      else csv_scan cs result (current @ [c]) inQuotes)"

definition parseCSVLine :: "string \<Rightarrow> string list" where
  "parseCSVLine line = csv_scan line [] [] False"

text \<open>
  A scalar of a record, and a record: its own keys in insertion order, each with its
  value.  Writing an own key replaces the value of a key that is there and adds a new key
  at the end.
\<close>

datatype cell = CNull | CNum jsnum | CStr string

type_synonym row = "(string \<times> cell) list"

text \<open>
  The body of \<^verbatim>\<open>headers.forEach\<close>: \<open>v\<close> is \<^verbatim>\<open>values[idx]\<close>, \<open>None\<close> when the
  index is out of range.
\<close>

definition coerce :: "string option \<Rightarrow> cell" where
  "coerce v =
     (case map_option trim v of
        None \<Rightarrow> CNull
      | Some value \<Rightarrow>
          if value = [] \<or> value = ''NA'' \<or> value = ''NaN'' then CNull
          else if Number value \<noteq> NaN then CNum (Number value)
          else CStr value)"

definition nth_opt :: "'a list \<Rightarrow> nat \<Rightarrow> 'a option" where
  "nth_opt xs i = (if i < length xs then Some (xs ! i) else None)"

text \<open>
  The record under construction: its own keys, and whether it still inherits from
  \<^verbatim>\<open>Object.prototype\<close>, as the object \<^verbatim>\<open>{}\<close> does at first.  The
  assignment \<^verbatim>\<open>row[header] = v\<close> writes an own key, except for the name
  \<^verbatim>\<open>__proto__\<close> on a record that inherits and has no own key of that name: there
  the assignment runs the inherited setter, which makes no key; it removes the
  inheritance when the value is null and does nothing for a number or a string.
\<close>

definition assign :: "string \<Rightarrow> cell \<Rightarrow> row \<times> bool \<Rightarrow> row \<times> bool" where
  "assign header v st =
     (case st of (row, inherits) \<Rightarrow>
        if header = ''__proto__'' \<and> inherits \<and> map_of row header = None
        then (row, v \<noteq> CNull)
        else (AList.update header v row, inherits))"

fun fill_row :: "string list \<Rightarrow> string list \<Rightarrow> nat \<Rightarrow> row \<times> bool \<Rightarrow> row \<times> bool" where
  "fill_row [] values idx st = st"
| "fill_row (header # rest) values idx st =
     fill_row rest values (Suc idx) (assign header (coerce (nth_opt values idx)) st)"

text \<open>The result is the list of the records, each by its own keys.\<close>

definition parseCSV :: "string \<Rightarrow> row list" where
  "parseCSV text =
     (let lines = split_nl (trim text)
      in if length lines = 0 then []
         else let headers = parseCSVLine (lines ! 0)
              in map (\<lambda>line. fst (fill_row headers (parseCSVLine line) 0 ([], True)))
                   (drop 1 lines))"

section \<open>readUploadedFile\<close>

record File =
  name :: string
  text_content :: string
  array_buffer :: string

datatype error = Error string

text \<open>
  The spreadsheet path is the library's: \<open>xlsx\<close> stands for reading the workbook from the
  buffer and turning its first sheet into records, which may fail.
\<close>

definition readUploadedFile :: "(string \<Rightarrow> error + row list) \<Rightarrow> File \<Rightarrow> error + row list" where
  "readUploadedFile xlsx f =
     (let name = toLowerCase (name f)
      in if endsWith name ''.csv'' then Inr (parseCSV (text_content f))
         else if endsWith name ''.xlsx'' \<or> endsWith name ''.xls'' then xlsx (array_buffer f)
         else Inl (Error ''Unsupported file type. Please upload .csv or .xlsx''))"

section \<open>classifyRisk\<close>

text \<open>
  \<^verbatim>\<open>riskRef: { q33?: number; q66?: number } | null\<close>: the reference is absent
  (\<open>None\<close>) or an object whose two fields may each be undefined.
\<close>

record riskRef =
  q33 :: "jsnum option"
  q66 :: "jsnum option"

datatype riskGroup = Low | Intermediate | High

record riskResult =
  group :: "riskGroup option"
  threshold :: "jsnum option"

fun classifyRisk :: "jsnum \<Rightarrow> riskRef option \<Rightarrow> riskResult" where
  "classifyRisk score None = \<lparr>group = None, threshold = None\<rparr>"
| "classifyRisk score (Some r) =
     (case (q33 r, q66 r) of
        (Some a, Some b) \<Rightarrow>
          if jle score a then \<lparr>group = Some Low, threshold = Some a\<rparr>
          else if jle score b then \<lparr>group = Some Intermediate, threshold = Some b\<rparr>
          else \<lparr>group = Some High, threshold = Some b\<rparr>
      | _ \<Rightarrow> \<lparr>group = None, threshold = None\<rparr>)"

section \<open>detectIdColumn\<close>

definition candidates :: "string list" where
  "candidates = [''Sample'', ''Patient_ID'', ''patient_id'', ''PatientID'', ''id'', ''ID'']"

text \<open>The \<open>for ... of\<close> loop over the candidates, returning at the first one included.\<close>

fun detect_loop :: "string list \<Rightarrow> string list \<Rightarrow> string option" where
  "detect_loop [] columns = None"
| "detect_loop (candidate # rest) columns =
     (if candidate \<in> set columns then Some candidate else detect_loop rest columns)"

definition detectIdColumn :: "string list \<Rightarrow> string option" where
  "detectIdColumn columns = detect_loop candidates columns"

section \<open>getSurvivalAtTime\<close>

record sample =
  time :: jsnum
  probability :: jsnum

text \<open>
  The loop \<^verbatim>\<open>for (let i = survivalData.length - 1; i >= 0; i--)\<close>:
  \<open>scan_back xs t k\<close> runs it over the indices \<open>k - 1, ..., 0\<close> and gives the
  probability returned inside the loop, or \<open>None\<close> when the loop ends without returning.
\<close>

fun scan_back :: "sample list \<Rightarrow> jsnum \<Rightarrow> nat \<Rightarrow> jsnum option" where
  "scan_back xs t 0 = None"
| "scan_back xs t (Suc i) =
     (if jle (time (xs ! i)) t then Some (probability (xs ! i)) else scan_back xs t i)"

definition getSurvivalAtTime :: "sample list \<Rightarrow> jsnum \<Rightarrow> jsnum" where
  "getSurvivalAtTime survivalData targetTime =
     (if length survivalData = 0 then Fin 1
      else case scan_back survivalData targetTime (length survivalData) of
             Some p \<Rightarrow> p
           | None \<Rightarrow> probability (survivalData ! 0))"

text \<open>A sequence is time-ordered when the times never decrease from one sample to the next.\<close>

definition time_ordered :: "sample list \<Rightarrow> bool" where
  "time_ordered xs = sorted_wrt (\<lambda>a b. jle (time a) (time b)) xs"

section \<open>exportToCSV\<close>

text \<open>
  \<^verbatim>\<open>Object.keys(row)\<close>: the own keys that are array indices (the decimal text,
  with no leading zero, of a number below \<open>2\<^sup>3\<^sup>2 - 1\<close>, which is 4294967295) in
  increasing order of their numbers, then the other keys in insertion order.
\<close>

definition isArrayIndex :: "string \<Rightarrow> bool" where
  "isArrayIndex k =
     (k \<noteq> [] \<and> list_all isDigit k \<and> (hd k \<noteq> CHR ''0'' \<or> k = ''0'')
      \<and> int (digitsVal 10 k) < 4294967295)"

definition object_keys :: "row \<Rightarrow> string list" where
  "object_keys row =
     sort_key (digitsVal 10) (filter isArrayIndex (map fst row))
     @ filter (\<lambda>k. \<not> isArrayIndex k) (map fst row)"

text \<open>
  How one value is written.  The records are ordinary objects, so \<^verbatim>\<open>row[header]\<close>
  is the value of the own key when there is one (\<open>v\<close>, else \<open>None\<close>), and otherwise the
  member of that name that every object inherits (\<open>constructor\<close>, \<open>toString\<close>,
  \<open>__proto__\<close> and the like) when there is one.  Such a member is a function or an
  object, so it is written as \<^verbatim>\<open>String\<close> gives it, without quotes; that text is
  the engine's and is the parameter \<open>inherited\<close>, which is \<open>None\<close> for a name that
  nothing inherited has: then the value is undefined and nothing is written.
\<close>

definition render ::
  "(rat \<Rightarrow> string) \<Rightarrow> (string \<Rightarrow> string option) \<Rightarrow> string \<Rightarrow> cell option \<Rightarrow> string" where
  "render fmt inherited header v =
     (case v of
        None \<Rightarrow> (case inherited header of None \<Rightarrow> [] | Some member \<Rightarrow> member)
      | Some CNull \<Rightarrow> []
      | Some (CStr s) \<Rightarrow> if includes_str s '','' then [CHR 0x22] @ s @ [CHR 0x22] else s
      | Some (CNum x) \<Rightarrow> String_num fmt x)"

definition csvContent ::
  "(rat \<Rightarrow> string) \<Rightarrow> (string \<Rightarrow> string option) \<Rightarrow> row list \<Rightarrow> string" where
  "csvContent fmt inherited data =
     (let headers = object_keys (data ! 0)
      in join [CHR 0x0A]
           (join '','' headers
            # map (\<lambda>row. join '','' (map (\<lambda>header. render fmt inherited header (map_of row header))
                                       headers)) data))"

text \<open>
  The function returns nothing; its effect is the download of a file, here the name and
  the content of that file, or \<open>None\<close> when nothing is downloaded.
\<close>

definition exportToCSV ::
  "(rat \<Rightarrow> string) \<Rightarrow> (string \<Rightarrow> string option) \<Rightarrow> row list \<Rightarrow> string
     \<Rightarrow> (string \<times> string) option" where
  "exportToCSV fmt inherited data filename =
     (if length data = 0 then None else Some (filename, csvContent fmt inherited data))"

section \<open>Notions used in the statements\<close>

text \<open>
  The pattern of parseStageOrdinal in the words of the specification: somewhere in the
  text stands "stage" in any mix of cases, then optional white space, then one or more
  of the letters I, V, X (in either case, the match being case-insensitive).
\<close>

definition stage_pattern :: "string \<Rightarrow> bool" where
  "stage_pattern s =
     (\<exists>pre st ws g rest. s = pre @ st @ ws @ g @ rest \<and> toUpperCase st = ''STAGE''
        \<and> list_all isWhiteSpace ws \<and> g \<noteq> [] \<and> list_all isIVX g)"

text \<open>A number that is a non-negative integer.\<close>

definition is_nonneg_integer :: "jsnum \<Rightarrow> bool" where
  "is_nonneg_integer x = (case x of Fin r \<Rightarrow> 0 \<le> r \<and> r = of_int \<lfloor>r\<rfloor> | _ \<Rightarrow> False)"

text \<open>
  Number formatting on integers (below \<open>10\<^sup>2\<^sup>1\<close>, where JavaScript writes all the
  digits): an optional minus sign and the decimal digits.  It instantiates \<open>fmt\<close> in the
  examples.
\<close>

fun digits_of :: "nat \<Rightarrow> string" where
  "digits_of n =
     (if n < 10 then [''0123456789'' ! n]
      else digits_of (n div 10) @ [''0123456789'' ! (n mod 10)])"

declare digits_of.simps [simp del]

definition fmt_integer :: "rat \<Rightarrow> string" where
  "fmt_integer r =
     (if r < 0 then CHR ''-'' # digits_of (nat \<lfloor>- r\<rfloor>) else digits_of (nat \<lfloor>r\<rfloor>))"

text \<open>
  A text that parses fully as a decimal number, in the words of the specification: an
  optional sign, then a decimal literal (digits with an optional fraction and exponent)
  and nothing after it; its mathematical value.
\<close>

definition decimal_value :: "string \<Rightarrow> rat option" where
  "decimal_value s =
     (let (neg, u) = scan_sign s
      in case scan_decimal u of
           Some (v, []) \<Rightarrow> Some (if neg then - v else v)
         | _ \<Rightarrow> None)"

text \<open>The lines and the header of a delimited text, as parseCSV takes them.\<close>

definition csv_lines :: "string \<Rightarrow> string list" where
  "csv_lines text = split_nl (trim text)"

definition csv_headers :: "string \<Rightarrow> string list" where
  "csv_headers text = parseCSVLine (csv_lines text ! 0)"

text \<open>
  What the language's number formatting promises of the text it writes for a finite
  number: the text is not empty, it is made of digits, the point, the exponent mark \<open>e\<close>
  and the two signs, and converting it back gives the number.
\<close>

definition number_chars :: "char set" where
  "number_chars = set ''0123456789.e+-''"

definition formats_number :: "(rat \<Rightarrow> string) \<Rightarrow> rat \<Rightarrow> bool" where
  "formats_number fmt x =
     (fmt x \<noteq> [] \<and> set (fmt x) \<subseteq> number_chars \<and> Number (fmt x) = Fin x)"

text \<open>
  The datasets on which export and re-parse give the records back.  A text is plain when
  it has no double quote, no line feed and no white space at either end.  A header is a
  plain text without a comma, other than \<open>__proto__\<close>.  A cell is null, or a plain string that is empty or that
  the parser leaves a string (not \<open>NA\<close> or \<open>NaN\<close>, not read as a number), or a number
  other than NaN whose text, when it is finite, is as number formatting promises.  A
  dataset is not empty; the keys of its first record are not empty and are headers; every
  record has those keys, each once, and such cells; and when there is one column only, its name
  is not empty and the last record's value is neither null nor the empty string.
\<close>

definition plain_text :: "string \<Rightarrow> bool" where
  "plain_text s = (CHR 0x22 \<notin> set s \<and> CHR 0x0A \<notin> set s \<and> trim s = s)"

definition safe_header :: "string \<Rightarrow> bool" where
  "safe_header h = (plain_text h \<and> CHR '','' \<notin> set h \<and> h \<noteq> ''__proto__'')"

definition safe_cell :: "(rat \<Rightarrow> string) \<Rightarrow> cell \<Rightarrow> bool" where
  "safe_cell fmt c =
     (case c of
        CNull \<Rightarrow> True
      | CStr s \<Rightarrow> plain_text s \<and> s \<noteq> ''NA'' \<and> s \<noteq> ''NaN'' \<and> (s \<noteq> [] \<longrightarrow> Number s = NaN)
      | CNum x \<Rightarrow> (case x of NaN \<Rightarrow> False | Fin r \<Rightarrow> formats_number fmt r | _ \<Rightarrow> True))"

definition exportable :: "(rat \<Rightarrow> string) \<Rightarrow> row list \<Rightarrow> bool" where
  "exportable fmt data =
     (data \<noteq> []
      \<and> map fst (hd data) \<noteq> []
      \<and> list_all safe_header (map fst (hd data))
      \<and> (\<forall>row \<in> set data. distinct (map fst row) \<and> fst ` set row = fst ` set (hd data)
             \<and> (\<forall>c \<in> snd ` set row. safe_cell fmt c))
      \<and> (length (hd data) = 1 \<longrightarrow>
            fst (hd (hd data)) \<noteq> []
            \<and> map_of (last data) (fst (hd (hd data))) \<noteq> Some CNull
            \<and> map_of (last data) (fst (hd (hd data))) \<noteq> Some (CStr [])))"

text \<open>
  Equality of values up to null standing for the empty string: the value that an
  exported cell comes back as.
\<close>

definition null_if_empty :: "cell \<Rightarrow> cell" where
  "null_if_empty c = (if c = CStr [] then CNull else c)"

text \<open>
  The text of a cell before quoting, and a field as exportToCSV writes a string: in double
  quotes when it has a comma.
\<close>

definition cell_text :: "(rat \<Rightarrow> string) \<Rightarrow> cell \<Rightarrow> string" where
  "cell_text fmt c = (case c of CNull \<Rightarrow> [] | CStr s \<Rightarrow> s | CNum x \<Rightarrow> String_num fmt x)"

definition csv_field :: "string \<Rightarrow> string" where
  "csv_field f = (if CHR '','' \<in> set f then [CHR 0x22] @ f @ [CHR 0x22] else f)"

text \<open>The message of the error that readUploadedFile throws.\<close>

definition unsupported_message :: string where
  "unsupported_message = ''Unsupported file type. Please upload .csv or .xlsx''"

section \<open>Properties of classifyRisk\<close>

lemma jle_antisym_neq: "jle a b \<Longrightarrow> a \<noteq> b \<Longrightarrow> \<not> jle b a"
  by (cases a; cases b) auto

lemma jle_refl_left: "jle a b \<Longrightarrow> jle a a"
  by (cases a; cases b) auto

lemma jle_refl_right: "jle a b \<Longrightarrow> jle b b"
  by (cases a; cases b) auto

lemma jle_trans: "jle a b \<Longrightarrow> jle b c \<Longrightarrow> jle a c"
  by (cases a; cases b; cases c) auto

lemma jlt_not_jle: "jlt a b \<Longrightarrow> \<not> jle b a"
  by (cases a; cases b) auto

text \<open>
  Claim C1, as stated, at a reference whose two thresholds coincide: the score equal to
  q66 is also equal to q33, the first test wins, and the band is Low, not Intermediate.
\<close>

theorem classifyRisk_equal_thresholds_counterexample:
  "jle (Fin (1/2)) (Fin (1/2)) \<and>
   classifyRisk (Fin (1/2)) (Some \<lparr>q33 = Some (Fin (1/2)), q66 = Some (Fin (1/2))\<rparr>)
     = \<lparr>group = Some Low, threshold = Some (Fin (1/2))\<rparr> \<and>
   group (classifyRisk (Fin (1/2)) (Some \<lparr>q33 = Some (Fin (1/2)), q66 = Some (Fin (1/2))\<rparr>))
     \<noteq> Some Intermediate"
  by simp

text \<open>
  Claim C1, amended: for every score \<open>s\<close> and every reference with both thresholds defined
  and q33 \<open>\<le>\<close> q66, classifyRisk returns Low with q33 when \<open>s \<le> q33\<close>, else Intermediate
  with q66 when \<open>s \<le> q66\<close>, else High with q66; the band is one of the three; a score
  equal to q33 is Low; a score equal to q66 is never High, and it is Intermediate when
  q33 differs from q66 (when the two thresholds coincide it is Low).
\<close>

theorem classifyRisk_bands:
  assumes "q33 r = Some a" and "q66 r = Some b" and "jle a b"
  shows "classifyRisk s (Some r) =
           (if jle s a then \<lparr>group = Some Low, threshold = Some a\<rparr>
            else if jle s b then \<lparr>group = Some Intermediate, threshold = Some b\<rparr>
            else \<lparr>group = Some High, threshold = Some b\<rparr>)
         \<and> group (classifyRisk s (Some r)) \<in> {Some Low, Some Intermediate, Some High}
         \<and> (s = a \<longrightarrow> classifyRisk s (Some r) = \<lparr>group = Some Low, threshold = Some a\<rparr>)
         \<and> (s = b \<longrightarrow> group (classifyRisk s (Some r)) \<noteq> Some High)
         \<and> (s = b \<and> a \<noteq> b \<longrightarrow>
              classifyRisk s (Some r) = \<lparr>group = Some Intermediate, threshold = Some b\<rparr>)"
proof -
  have aa: "jle a a" and bb: "jle b b"
    using assms(3) jle_refl_left jle_refl_right by blast+
  have nba: "a \<noteq> b \<Longrightarrow> \<not> jle b a"
    using assms(3) jle_antisym_neq by blast
  show ?thesis
    using assms(1,2) aa bb nba by auto
qed

theorem classifyRisk_bands_witness:
  "classifyRisk (Fin (13/20)) (Some \<lparr>q33 = Some (Fin (7/20)), q66 = Some (Fin (13/20))\<rparr>)
     = \<lparr>group = Some Intermediate, threshold = Some (Fin (13/20))\<rparr>"
  using classifyRisk_bands
    [of "\<lparr>q33 = Some (Fin (7/20)), q66 = Some (Fin (13/20))\<rparr>" "Fin (7/20)" "Fin (13/20)"
        "Fin (13/20)"]
  by simp

text \<open>
  Claim C7: for every score, a reference that is absent or has q33 or q66 undefined gives
  the result with group null and threshold null; no error is raised (the function is
  total and has no error value).
\<close>

theorem classifyRisk_missing_reference:
  "ref = None \<or> (\<exists>r. ref = Some r \<and> (q33 r = None \<or> q66 r = None))
   \<Longrightarrow> classifyRisk s ref = \<lparr>group = None, threshold = None\<rparr>"
  by (cases ref) (auto split: option.splits)

theorem classifyRisk_missing_reference_witness:
  "classifyRisk (Fin (1/2)) (Some \<lparr>q33 = Some (Fin (7/20)), q66 = None\<rparr>)
     = \<lparr>group = None, threshold = None\<rparr>
   \<and> classifyRisk (Fin (1/2)) None = \<lparr>group = None, threshold = None\<rparr>"
  using classifyRisk_missing_reference
    [of "Some \<lparr>q33 = Some (Fin (7/20)), q66 = None\<rparr>" "Fin (1/2)"]
    classifyRisk_missing_reference [of None "Fin (1/2)"]
  by simp

section \<open>Properties of detectIdColumn\<close>

lemma detect_loop_find: "detect_loop cs columns = find (\<lambda>c. c \<in> set columns) cs"
  by (induction cs) auto

lemma detect_loop_first:
  "detect_loop cs columns = Some c \<longleftrightarrow>
     (\<exists>i < length cs. cs ! i = c \<and> c \<in> set columns \<and> (\<forall>j < i. cs ! j \<notin> set columns))"
  unfolding detect_loop_find find_Some_iff by auto

lemma detect_loop_none:
  "detect_loop cs columns = None \<longleftrightarrow> (\<forall>c \<in> set cs. c \<notin> set columns)"
  unfolding detect_loop_find find_None_iff by auto

text \<open>
  Claim C9: detectIdColumn returns the first candidate of the list Sample, Patient_ID,
  patient_id, PatientID, id, ID that occurs among the columns (every earlier candidate
  is absent from them), and null exactly when no candidate occurs; a non-null result is
  one of the columns; the two examples of the specification.
\<close>

theorem detectIdColumn_first_candidate:
  "(detectIdColumn columns = Some c \<longleftrightarrow>
      (\<exists>i < length candidates. candidates ! i = c \<and> c \<in> set columns
         \<and> (\<forall>j < i. candidates ! j \<notin> set columns)))
   \<and> (detectIdColumn columns = None \<longleftrightarrow> (\<forall>c \<in> set candidates. c \<notin> set columns))
   \<and> (detectIdColumn columns = Some c \<longrightarrow> c \<in> set columns)
   \<and> candidates = [''Sample'', ''Patient_ID'', ''patient_id'', ''PatientID'', ''id'', ''ID'']
   \<and> detectIdColumn [''Name'', ''Sample'', ''Age''] = Some ''Sample''
   \<and> detectIdColumn [''Name'', ''Age''] = None"
proof -
  have 1: "detectIdColumn columns = Some c \<longleftrightarrow>
      (\<exists>i < length candidates. candidates ! i = c \<and> c \<in> set columns
         \<and> (\<forall>j < i. candidates ! j \<notin> set columns))"
    unfolding detectIdColumn_def by (rule detect_loop_first)
  have 2: "detectIdColumn columns = None \<longleftrightarrow> (\<forall>c \<in> set candidates. c \<notin> set columns)"
    unfolding detectIdColumn_def by (rule detect_loop_none)
  have 3: "detectIdColumn columns = Some c \<longrightarrow> c \<in> set columns"
    using 1 by blast
  have 4: "detectIdColumn [''Name'', ''Sample'', ''Age''] = Some ''Sample''"
    by (simp add: detectIdColumn_def candidates_def)
  have 5: "detectIdColumn [''Name'', ''Age''] = None"
    by (simp add: detectIdColumn_def candidates_def)
  show ?thesis
    using 1 2 3 4 5 candidates_def by blast
qed

theorem detectIdColumn_first_candidate_witness:
  "detectIdColumn [''ID'', ''x'', ''patient_id''] = Some ''patient_id''
   \<and> ''patient_id'' \<in> set [''ID'', ''x'', ''patient_id'']"
  using detectIdColumn_first_candidate [of "[''ID'', ''x'', ''patient_id'']" "''patient_id''"]
  by (simp add: detectIdColumn_def candidates_def)

section \<open>Properties of getSurvivalAtTime\<close>

lemma scan_back_none:
  "scan_back xs t k = None \<longleftrightarrow> (\<forall>i < k. \<not> jle (time (xs ! i)) t)"
  by (induction k) (auto simp: less_Suc_eq)

lemma scan_back_some:
  "k \<le> length xs \<Longrightarrow> \<exists>i < k. jle (time (xs ! i)) t \<Longrightarrow>
   scan_back xs t k = Some (probability (last (filter (\<lambda>s. jle (time s) t) (take k xs))))"
proof (induction k)
  case 0
  then show ?case by simp
next
  case (Suc k)
  have tk: "take (Suc k) xs = take k xs @ [xs ! k]"
    using Suc.prems(1) by (simp add: take_Suc_conv_app_nth)
  show ?case
  proof (cases "jle (time (xs ! k)) t")
    case True
    then show ?thesis by (simp add: tk)
  next
    case False
    with Suc.prems(2) have "\<exists>i < k. jle (time (xs ! i)) t"
      by (metis less_Suc_eq)
    with Suc.IH Suc.prems(1) False show ?thesis
      by (simp add: tk)
  qed
qed

lemma time_ordered_first:
  assumes "time_ordered xs" and "i < length xs" and "jlt t (time (xs ! 0))"
  shows "\<not> jle (time (xs ! i)) t"
proof (cases i)
  case 0
  then show ?thesis using assms(3) jlt_not_jle by simp
next
  case (Suc j)
  have "jle (time (xs ! 0)) (time (xs ! i))"
    using assms(1,2) Suc unfolding time_ordered_def
    by (simp add: sorted_wrt_iff_nth_less)
  then show ?thesis
    using assms(3) jle_trans jlt_not_jle by blast
qed

text \<open>
  Claim C2: getSurvivalAtTime returns 1 on the empty sequence; when some sample has a
  time \<open>\<le> t\<close> it returns the probability of the last such sample of the sequence (no
  interpolation); when the sequence is time-ordered and \<open>t\<close> precedes the first sample's
  time it returns the first sample's probability; on the samples (0,1.0), (30,0.9),
  (60,0.8) it returns 0.9 at 45 and 1.0 at -5.
\<close>

theorem getSurvivalAtTime_step_lookup:
  "getSurvivalAtTime [] t = Fin 1
   \<and> ((\<exists>s \<in> set xs. jle (time s) t) \<longrightarrow>
        getSurvivalAtTime xs t = probability (last (filter (\<lambda>s. jle (time s) t) xs)))
   \<and> (xs \<noteq> [] \<and> time_ordered xs \<and> jlt t (time (hd xs)) \<longrightarrow>
        getSurvivalAtTime xs t = probability (hd xs))
   \<and> getSurvivalAtTime
        [\<lparr>time = Fin 0, probability = Fin 1\<rparr>, \<lparr>time = Fin 30, probability = Fin (9/10)\<rparr>,
         \<lparr>time = Fin 60, probability = Fin (8/10)\<rparr>] (Fin 45) = Fin (9/10)
   \<and> getSurvivalAtTime
        [\<lparr>time = Fin 0, probability = Fin 1\<rparr>, \<lparr>time = Fin 30, probability = Fin (9/10)\<rparr>,
         \<lparr>time = Fin 60, probability = Fin (8/10)\<rparr>] (Fin (-5)) = Fin 1"
proof -
  have 1: "getSurvivalAtTime [] t = Fin 1"
    by (simp add: getSurvivalAtTime_def)
  have 2: "getSurvivalAtTime xs t = probability (last (filter (\<lambda>s. jle (time s) t) xs))"
    if "\<exists>s \<in> set xs. jle (time s) t"
  proof -
    from that have ne: "xs \<noteq> []" by auto
    from that have "\<exists>i < length xs. jle (time (xs ! i)) t"
      by (metis in_set_conv_nth)
    then have "scan_back xs t (length xs)
                 = Some (probability (last (filter (\<lambda>s. jle (time s) t) (take (length xs) xs))))"
      by (intro scan_back_some) simp_all
    then show ?thesis
      using ne by (simp add: getSurvivalAtTime_def)
  qed
  have 3: "getSurvivalAtTime xs t = probability (hd xs)"
    if "xs \<noteq> []" "time_ordered xs" "jlt t (time (hd xs))"
  proof -
    have "jlt t (time (xs ! 0))"
      using that(1,3) by (simp add: hd_conv_nth)
    then have "scan_back xs t (length xs) = None"
      unfolding scan_back_none using time_ordered_first that(2) by blast
    then show ?thesis
      using that(1) by (simp add: getSurvivalAtTime_def hd_conv_nth)
  qed
  have 4: "getSurvivalAtTime
        [\<lparr>time = Fin 0, probability = Fin 1\<rparr>, \<lparr>time = Fin 30, probability = Fin (9/10)\<rparr>,
         \<lparr>time = Fin 60, probability = Fin (8/10)\<rparr>] (Fin 45) = Fin (9/10)"
    by (simp add: getSurvivalAtTime_def numeral_3_eq_3)
  have 5: "getSurvivalAtTime
        [\<lparr>time = Fin 0, probability = Fin 1\<rparr>, \<lparr>time = Fin 30, probability = Fin (9/10)\<rparr>,
         \<lparr>time = Fin 60, probability = Fin (8/10)\<rparr>] (Fin (-5)) = Fin 1"
    by (simp add: getSurvivalAtTime_def numeral_3_eq_3)
  show ?thesis
    using 1 2 3 4 5 by blast
qed

theorem getSurvivalAtTime_step_lookup_witness:
  "getSurvivalAtTime
     [\<lparr>time = Fin 0, probability = Fin 1\<rparr>, \<lparr>time = Fin 30, probability = Fin (9/10)\<rparr>]
     (Fin 45) = Fin (9/10)
   \<and> getSurvivalAtTime
     [\<lparr>time = Fin 10, probability = Fin 1\<rparr>, \<lparr>time = Fin 30, probability = Fin (9/10)\<rparr>]
     (Fin 5) = Fin 1"
  using getSurvivalAtTime_step_lookup
    [of "Fin 45" "[\<lparr>time = Fin 0, probability = Fin 1\<rparr>, \<lparr>time = Fin 30, probability = Fin (9/10)\<rparr>]"]
    getSurvivalAtTime_step_lookup
    [of "Fin 5" "[\<lparr>time = Fin 10, probability = Fin 1\<rparr>, \<lparr>time = Fin 30, probability = Fin (9/10)\<rparr>]"]
  by (simp add: time_ordered_def)

section \<open>Properties of parseStageOrdinal\<close>

lemma isIVX_iff: "isIVX c \<longleftrightarrow> c \<in> set ''IVXivx''"
  unfolding isIVX_def toUpperChar_def lower_letters_def upper_letters_def
  by (auto split: if_splits)

lemma isIVX_not_space: "isIVX c \<Longrightarrow> \<not> isWhiteSpace c"
  unfolding isIVX_iff isWhiteSpace_def by auto

lemma toUpperChar_S: "toUpperChar c = CHR ''S'' \<longleftrightarrow> c = CHR ''s'' \<or> c = CHR ''S''"
  unfolding toUpperChar_def lower_letters_def upper_letters_def
  by (auto split: if_splits)

lemma match_at_sound:
  assumes "match_at s = Some g"
  shows "\<exists>st ws rest. s = st @ ws @ g @ rest \<and> toUpperCase st = ''STAGE''
           \<and> list_all isWhiteSpace ws \<and> g \<noteq> [] \<and> list_all isIVX g"
proof -
  let ?d = "drop 5 s"
  let ?r = "dropWhile isWhiteSpace ?d"
  from assms have st: "toUpperCase (take 5 s) = ''STAGE''"
    and g: "g = takeWhile isIVX ?r" and ne: "g \<noteq> []"
    by (auto simp: match_at_def Let_def split: if_splits)
  have "s = take 5 s @ takeWhile isWhiteSpace ?d @ g @ dropWhile isIVX ?r"
    unfolding g by simp
  moreover have "list_all isWhiteSpace (takeWhile isWhiteSpace ?d)"
    by (simp add: list_all_iff) (meson set_takeWhileD)
  moreover have "list_all isIVX g"
    unfolding g by (simp add: list_all_iff) (meson set_takeWhileD)
  ultimately show ?thesis using st ne by blast
qed

lemma match_at_complete:
  assumes "toUpperCase st = ''STAGE''" "list_all isWhiteSpace ws" "g \<noteq> []" "list_all isIVX g"
  shows "match_at (st @ ws @ g @ rest) = Some (g @ takeWhile isIVX rest)"
proof -
  have "length (toUpperCase st) = 5"
    unfolding assms(1) by simp
  then have len: "length st = 5"
    by (simp add: toUpperCase_def)
  have d: "dropWhile isWhiteSpace (ws @ g @ rest) = g @ rest"
  proof -
    obtain c cs where gc: "g = c # cs" using assms(3) by (cases g) auto
    then have "\<not> isWhiteSpace c" using assms(4) isIVX_not_space by simp
    then show ?thesis
      using assms(2) gc by (simp add: dropWhile_append list_all_iff)
  qed
  have t: "takeWhile isIVX (g @ rest) = g @ takeWhile isIVX rest"
    using assms(4) by (simp add: takeWhile_append list_all_iff)
  show ?thesis
    using assms(1,3) len d t by (simp add: match_at_def)
qed

lemma stage_match_sound:
  "stage_match s = Some g \<Longrightarrow>
     \<exists>pre st ws rest. s = pre @ st @ ws @ g @ rest \<and> toUpperCase st = ''STAGE''
           \<and> list_all isWhiteSpace ws \<and> g \<noteq> [] \<and> list_all isIVX g"
proof (induction s)
  case Nil
  then show ?case by simp
next
  case (Cons c cs)
  show ?case
  proof (cases "match_at (c # cs)")
    case None
    with Cons.prems have "stage_match cs = Some g" by simp
    from Cons.IH [OF this] obtain pre st ws rest where
      "cs = pre @ st @ ws @ g @ rest" "toUpperCase st = ''STAGE''"
      "list_all isWhiteSpace ws" "g \<noteq> []" "list_all isIVX g" by blast
    then have "c # cs = (c # pre) @ st @ ws @ g @ rest" by simp
    then show ?thesis
      using \<open>toUpperCase st = ''STAGE''\<close> \<open>list_all isWhiteSpace ws\<close> \<open>g \<noteq> []\<close> \<open>list_all isIVX g\<close>
      by blast
  next
    case (Some h)
    with Cons.prems have "h = g" by simp
    with Some match_at_sound [of "c # cs" g] show ?thesis
      by (metis append_Nil)
  qed
qed

lemma stage_match_append: "stage_match x \<noteq> None \<Longrightarrow> stage_match (pre @ x) \<noteq> None"
  by (induction pre) (auto split: option.splits)

lemma match_at_stage_match: "match_at x = Some g \<Longrightarrow> stage_match x \<noteq> None"
  by (cases x) (auto simp: match_at_def toUpperCase_def)

lemma stage_pattern_iff: "stage_pattern s \<longleftrightarrow> stage_match s \<noteq> None"
proof
  assume "stage_pattern s"
  then obtain pre st ws g rest where s: "s = pre @ st @ ws @ g @ rest"
    and h: "toUpperCase st = ''STAGE''" "list_all isWhiteSpace ws" "g \<noteq> []" "list_all isIVX g"
    unfolding stage_pattern_def by blast
  from match_at_complete [OF h] have "stage_match (st @ ws @ g @ rest) \<noteq> None"
    using match_at_stage_match by blast
  then show "stage_match s \<noteq> None"
    unfolding s by (rule stage_match_append)
next
  assume "stage_match s \<noteq> None"
  then obtain g where "stage_match s = Some g" by auto
  from stage_match_sound [OF this] show "stage_pattern s"
    unfolding stage_pattern_def by blast
qed

lemma in_set_dropWhile: "c \<in> set xs \<Longrightarrow> \<not> P c \<Longrightarrow> c \<in> set (dropWhile P xs)"
  by (induction xs) auto

lemma trim_keeps: "c \<in> set s \<Longrightarrow> \<not> isWhiteSpace c \<Longrightarrow> c \<in> set (trim s)"
  by (simp add: trim_def in_set_dropWhile)

lemma stage_has_S:
  assumes "toUpperCase st = ''STAGE''"
  shows "\<exists>c \<in> set st. c = CHR ''s'' \<or> c = CHR ''S''"
proof -
  from assms obtain c cs where "st = c # cs" "toUpperChar c = CHR ''S''"
    by (cases st) (auto simp: toUpperCase_def)
  then show ?thesis using toUpperChar_S by auto
qed

lemma stage_match_has_S:
  assumes "stage_match s \<noteq> None"
  shows "CHR ''s'' \<in> set s \<or> CHR ''S'' \<in> set s"
proof -
  from assms obtain g where "stage_match s = Some g" by auto
  from stage_match_sound [OF this] obtain pre st ws rest where
    s: "s = pre @ st @ ws @ g @ rest" and st: "toUpperCase st = ''STAGE''" by blast
  from stage_has_S [OF st] show ?thesis unfolding s by auto
qed

lemma roman_key_chars:
  "map_of ROMAN_MAP k = Some v \<Longrightarrow>
     set k \<subseteq> {CHR ''I'', CHR ''V''} \<and> k \<noteq> [] \<and> v \<in> {1, 2, 3, 4, 5}"
  by (auto simp: ROMAN_MAP_def split: if_splits)

lemma roman_key_no_stage:
  assumes "map_of ROMAN_MAP (toUpperCase (trim s)) = Some v"
  shows "stage_match s = None"
proof (rule ccontr)
  assume "stage_match s \<noteq> None"
  then obtain c where c: "c \<in> set s" "c = CHR ''s'' \<or> c = CHR ''S''"
    using stage_match_has_S by blast
  then have "\<not> isWhiteSpace c" by (auto simp: isWhiteSpace_def)
  with c(1) have "c \<in> set (trim s)" by (rule trim_keeps)
  then have "toUpperChar c \<in> set (toUpperCase (trim s))"
    by (simp add: toUpperCase_def)
  moreover have "toUpperChar c = CHR ''S''" using c(2) toUpperChar_S by blast
  ultimately show False
    using roman_key_chars [OF assms] by auto
qed

lemma round64_not_NaN: "round64 x \<noteq> NaN"
  by (simp add: round64_def Let_def)

lemma roman_or_zero_lookup:
  "roman_or_zero r = (case map_of ROMAN_MAP r of Some v \<Rightarrow> Fin (of_int v) | None \<Rightarrow> Fin 0)"
  by (auto simp: roman_or_zero_def split: option.splits)

lemma roman_or_zero_range: "roman_or_zero r \<in> {Fin 0, Fin 1, Fin 2, Fin 3, Fin 4, Fin 5}"
  unfolding roman_or_zero_lookup using roman_key_chars [of r]
  by (auto split: option.splits)

text \<open>The function on a string, branch by branch.\<close>

lemma parseStageOrdinal_JStr:
  "parseStageOrdinal fmt (JStr s) =
     (case stage_match s of
        Some g \<Rightarrow> roman_or_zero (toUpperCase g)
      | None \<Rightarrow>
          (case map_of ROMAN_MAP (toUpperCase (trim s)) of
             Some v \<Rightarrow> Fin (of_int v)
           | None \<Rightarrow> if parseFloat (toUpperCase (trim s)) = NaN then Fin 0
                     else parseFloat (toUpperCase (trim s))))"
  by (auto simp: parseStageOrdinal_def String_val_def Let_def split: option.splits)

lemma parseStageOrdinal_not_absent:
  "v \<noteq> JNull \<Longrightarrow> v \<noteq> JUndefined \<Longrightarrow> v \<noteq> JNum NaN \<Longrightarrow>
   parseStageOrdinal fmt v = parseStageOrdinal fmt (JStr (String_val fmt v))"
  by (simp add: parseStageOrdinal_def String_val_def)

lemma stage_II: "parseStageOrdinal fmt (JStr ''Stage II'') = Fin 2"
  unfolding parseStageOrdinal_JStr by code_simp

lemma stage_IIX: "parseStageOrdinal fmt (JStr ''Stage IIX'') = Fin 0"
  unfolding parseStageOrdinal_JStr by code_simp

lemma stage_VII: "parseStageOrdinal fmt (JStr ''Stage VII'') = Fin 0"
  unfolding parseStageOrdinal_JStr by code_simp

lemma plain_iv: "parseStageOrdinal fmt (JStr ''iv'') = Fin 4"
  unfolding parseStageOrdinal_JStr by code_simp

lemma plain_2_5: "parseStageOrdinal fmt (JStr ''2.5'') = Fin (5 / 2)"
  unfolding parseStageOrdinal_JStr by code_simp

lemma plain_minus_3: "parseStageOrdinal fmt (JStr ''-3'') = Fin (- 3)"
  unfolding parseStageOrdinal_JStr by code_simp

lemma number_then_stage:
  "parseStageOrdinal fmt (JStr ''3 Stage VII'') = Fin 0"
  unfolding parseStageOrdinal_JStr by code_simp

lemma number_then_stage_float: "parseFloat (toUpperCase (trim ''3 Stage VII'')) = Fin 3"
  by code_simp

lemma stage_no_break_space:
  "parseStageOrdinal fmt (JStr (''Stage'' @ [CHR 0xA0] @ ''II'')) = Fin 2"
  unfolding parseStageOrdinal_JStr by code_simp

lemma no_break_space_iv: "parseStageOrdinal fmt (JStr ([CHR 0xA0] @ ''iv'')) = Fin 4"
  unfolding parseStageOrdinal_JStr by code_simp

lemma no_break_space_2_5: "parseStageOrdinal fmt (JStr ([CHR 0xA0] @ ''2.5'')) = Fin (5 / 2)"
  unfolding parseStageOrdinal_JStr by code_simp

text \<open>
  Claim C3, as stated, at the text \<open>Infinity\<close>: parsing the trimmed string as a float
  succeeds with the number Infinity, but the function parses the upper-cased text, where
  the name of Infinity is not recognised, and returns 0.
\<close>

theorem parseStageOrdinal_Infinity_counterexample:
  "parseFloat (trim ''Infinity'') = PosInf
   \<and> parseFloat (toUpperCase (trim ''Infinity'')) = NaN
   \<and> parseStageOrdinal fmt_integer (JStr ''Infinity'') = Fin 0"
  by code_simp

text \<open>
  Claim C3, amended: the branches apply in order, the first that matches deciding.  Null,
  undefined and NaN give 0.  A text matching the pattern (which is what the function's
  search finds) is resolved by the table I 1, II 2, III 3, IV 4, V 5 on the upper-cased
  captured group alone: a group that is not a key gives 0, whatever the later branches
  would give (\<open>Stage IIX\<close>, \<open>Stage VII\<close> and \<open>3 Stage VII\<close> give 0, though the last reads
  as the float 3).  A text whose trimmed upper-cased whole is a key gives the key's value
  (\<open>iv\<close> gives 4).  Otherwise the trimmed, upper-cased text is parsed as a float: that
  number when it is not NaN (\<open>2.5\<close> gives 2.5), else 0.  The no-break space counts as
  white space in the pattern and in trimming.
\<close>

theorem parseStageOrdinal_branches:
  "parseStageOrdinal fmt JNull = Fin 0
   \<and> parseStageOrdinal fmt JUndefined = Fin 0
   \<and> parseStageOrdinal fmt (JNum NaN) = Fin 0
   \<and> (stage_pattern s \<longleftrightarrow> stage_match s \<noteq> None)
   \<and> (stage_pattern s \<longrightarrow>
        (\<exists>g. stage_match s = Some g \<and>
           parseStageOrdinal fmt (JStr s)
             = (case map_of ROMAN_MAP (toUpperCase g) of
                  Some v \<Rightarrow> Fin (of_int v) | None \<Rightarrow> Fin 0)))
   \<and> (map_of ROMAN_MAP (toUpperCase (trim s)) = Some v \<longrightarrow>
        parseStageOrdinal fmt (JStr s) = Fin (of_int v))
   \<and> (\<not> stage_pattern s \<and> map_of ROMAN_MAP (toUpperCase (trim s)) = None \<longrightarrow>
        parseStageOrdinal fmt (JStr s)
          = (if parseFloat (toUpperCase (trim s)) = NaN then Fin 0
             else parseFloat (toUpperCase (trim s))))
   \<and> ROMAN_MAP = [(''I'', 1), (''II'', 2), (''III'', 3), (''IV'', 4), (''V'', 5)]
   \<and> parseStageOrdinal fmt (JStr ''Stage II'') = Fin 2
   \<and> parseStageOrdinal fmt (JStr ''Stage IIX'') = Fin 0
   \<and> parseStageOrdinal fmt (JStr ''Stage VII'') = Fin 0
   \<and> parseStageOrdinal fmt (JStr ''3 Stage VII'') = Fin 0
   \<and> parseFloat (toUpperCase (trim ''3 Stage VII'')) = Fin 3
   \<and> parseStageOrdinal fmt (JStr ''iv'') = Fin 4
   \<and> parseStageOrdinal fmt (JStr ''2.5'') = Fin (5 / 2)
   \<and> parseStageOrdinal fmt (JStr (''Stage'' @ [CHR 0xA0] @ ''II'')) = Fin 2
   \<and> parseStageOrdinal fmt (JStr ([CHR 0xA0] @ ''iv'')) = Fin 4"
proof -
  have 1: "parseStageOrdinal fmt JNull = Fin 0" "parseStageOrdinal fmt JUndefined = Fin 0"
    "parseStageOrdinal fmt (JNum NaN) = Fin 0"
    by (simp_all add: parseStageOrdinal_def)
  have 2: "\<exists>g. stage_match s = Some g \<and>
           parseStageOrdinal fmt (JStr s)
             = (case map_of ROMAN_MAP (toUpperCase g) of
                  Some v \<Rightarrow> Fin (of_int v) | None \<Rightarrow> Fin 0)"
    if "stage_pattern s"
  proof -
    from that obtain g where g: "stage_match s = Some g"
      unfolding stage_pattern_iff by auto
    then show ?thesis
      by (simp add: parseStageOrdinal_JStr roman_or_zero_lookup)
  qed
  have 3: "parseStageOrdinal fmt (JStr s) = Fin (of_int v)"
    if "map_of ROMAN_MAP (toUpperCase (trim s)) = Some v"
    using that roman_key_no_stage [OF that] by (simp add: parseStageOrdinal_JStr)
  have 4: "parseStageOrdinal fmt (JStr s)
          = (if parseFloat (toUpperCase (trim s)) = NaN then Fin 0
             else parseFloat (toUpperCase (trim s)))"
    if "\<not> stage_pattern s" "map_of ROMAN_MAP (toUpperCase (trim s)) = None"
    using that unfolding stage_pattern_iff by (simp add: parseStageOrdinal_JStr)
  show ?thesis
    using 1 2 3 4 stage_pattern_iff [of s] ROMAN_MAP_def stage_II stage_IIX stage_VII
      number_then_stage number_then_stage_float plain_iv plain_2_5
      stage_no_break_space no_break_space_iv
    by blast
qed

theorem parseStageOrdinal_branches_witness:
  "stage_pattern ''Stage IV''
   \<and> parseStageOrdinal fmt_integer (JStr ''Stage IV'') = Fin 4
   \<and> \<not> stage_pattern ''7e1''
   \<and> parseStageOrdinal fmt_integer (JStr ''7e1'') = Fin 70
   \<and> parseStageOrdinal fmt_integer (JStr '' v '') = Fin 5"
proof -
  have m: "stage_match ''Stage IV'' = Some ''IV''" by code_simp
  then have p: "stage_pattern ''Stage IV''" by (simp add: stage_pattern_iff)
  have k: "map_of ROMAN_MAP (toUpperCase ''IV'') = Some 4" by code_simp
  have a: "parseStageOrdinal fmt_integer (JStr ''Stage IV'') = Fin 4"
    using parseStageOrdinal_branches [of fmt_integer "''Stage IV''"] p m k by auto
  have "stage_match ''7e1'' = None" by code_simp
  then have n: "\<not> stage_pattern ''7e1''" by (simp add: stage_pattern_iff)
  have l: "map_of ROMAN_MAP (toUpperCase (trim ''7e1'')) = None" by code_simp
  have f: "parseFloat (toUpperCase (trim ''7e1'')) = Fin 70" by code_simp
  have b: "parseStageOrdinal fmt_integer (JStr ''7e1'') = Fin 70"
    using parseStageOrdinal_branches [of fmt_integer "''7e1''"] n l f by simp
  have v: "map_of ROMAN_MAP (toUpperCase (trim '' v '')) = Some 5" by code_simp
  have c: "parseStageOrdinal fmt_integer (JStr '' v '') = Fin 5"
    using parseStageOrdinal_branches [of fmt_integer "'' v ''" 5] v by simp
  show ?thesis using p a n b c by blast
qed

text \<open>
  Claim C6, as stated, at the texts \<open>2.5\<close> and \<open>-3\<close>: the results are 2.5 and -3, neither
  of them a non-negative integer.
\<close>

theorem parseStageOrdinal_nonneg_integer_counterexample:
  "parseStageOrdinal fmt_integer (JStr ''2.5'') = Fin (5 / 2)
   \<and> \<not> is_nonneg_integer (parseStageOrdinal fmt_integer (JStr ''2.5''))
   \<and> parseStageOrdinal fmt_integer (JStr ''-3'') = Fin (- 3)
   \<and> \<not> is_nonneg_integer (parseStageOrdinal fmt_integer (JStr ''-3''))"
  by code_simp

text \<open>
  Claim C6, amended: for every input the result is a number other than NaN.  It is one of
  the integers 0 to 5 when the input is null, undefined or NaN, when its text matches
  the stage pattern, and when its trimmed upper-cased text is a key of the table; for
  every other input it is what parseFloat reads from the trimmed upper-cased text (any
  number: it may be negative or fractional), or 0 when that is NaN.
\<close>

theorem parseStageOrdinal_result:
  "parseStageOrdinal fmt v \<noteq> NaN
   \<and> (v = JNull \<or> v = JUndefined \<or> v = JNum NaN \<or> stage_pattern (String_val fmt v)
        \<or> map_of ROMAN_MAP (toUpperCase (trim (String_val fmt v))) \<noteq> None \<longrightarrow>
      parseStageOrdinal fmt v \<in> {Fin 0, Fin 1, Fin 2, Fin 3, Fin 4, Fin 5}
      \<and> is_nonneg_integer (parseStageOrdinal fmt v))
   \<and> (v \<noteq> JNull \<and> v \<noteq> JUndefined \<and> v \<noteq> JNum NaN \<and> \<not> stage_pattern (String_val fmt v)
        \<and> map_of ROMAN_MAP (toUpperCase (trim (String_val fmt v))) = None \<longrightarrow>
      parseStageOrdinal fmt v
        = (if parseFloat (toUpperCase (trim (String_val fmt v))) = NaN then Fin 0
           else parseFloat (toUpperCase (trim (String_val fmt v)))))"
proof -
  let ?s = "String_val fmt v"
  let ?r = "parseStageOrdinal fmt v"
  have absent: "?r = Fin 0" if "v = JNull \<or> v = JUndefined \<or> v = JNum NaN"
    using that by (auto simp: parseStageOrdinal_def)
  have str: "?r = parseStageOrdinal fmt (JStr ?s)"
    if "v \<noteq> JNull" "v \<noteq> JUndefined" "v \<noteq> JNum NaN"
    using that by (rule parseStageOrdinal_not_absent)
  have small: "?r \<in> {Fin 0, Fin 1, Fin 2, Fin 3, Fin 4, Fin 5}"
    if "v = JNull \<or> v = JUndefined \<or> v = JNum NaN \<or> stage_pattern ?s
        \<or> map_of ROMAN_MAP (toUpperCase (trim ?s)) \<noteq> None"
  proof (cases "v = JNull \<or> v = JUndefined \<or> v = JNum NaN")
    case True
    then show ?thesis using absent by simp
  next
    case False
    then have eq: "?r = parseStageOrdinal fmt (JStr ?s)" using str by blast
    from that False consider (a) "stage_match ?s \<noteq> None"
      | (b) "stage_match ?s = None" "map_of ROMAN_MAP (toUpperCase (trim ?s)) \<noteq> None"
      unfolding stage_pattern_iff by blast
    then show ?thesis
    proof cases
      case a
      then obtain g where "stage_match ?s = Some g" by auto
      then show ?thesis
        unfolding eq parseStageOrdinal_JStr using roman_or_zero_range by simp
    next
      case b
      then obtain w where w: "map_of ROMAN_MAP (toUpperCase (trim ?s)) = Some w" by auto
      then show ?thesis
        unfolding eq parseStageOrdinal_JStr using b(1) roman_key_chars [OF w] by auto
    qed
  qed
  have int: "is_nonneg_integer x" if "x \<in> {Fin 0, Fin 1, Fin 2, Fin 3, Fin 4, Fin 5}" for x
    using that by (auto simp: is_nonneg_integer_def)
  have float: "?r = (if parseFloat (toUpperCase (trim ?s)) = NaN then Fin 0
           else parseFloat (toUpperCase (trim ?s)))"
    if "v \<noteq> JNull" "v \<noteq> JUndefined" "v \<noteq> JNum NaN" "\<not> stage_pattern ?s"
       "map_of ROMAN_MAP (toUpperCase (trim ?s)) = None"
    using that(4,5) unfolding str [OF that(1,2,3)] stage_pattern_iff
    by (simp add: parseStageOrdinal_JStr)
  have nn: "?r \<noteq> NaN"
  proof (cases "v = JNull \<or> v = JUndefined \<or> v = JNum NaN \<or> stage_pattern ?s
        \<or> map_of ROMAN_MAP (toUpperCase (trim ?s)) \<noteq> None")
    case True
    from small [OF this] show ?thesis by auto
  next
    case False
    then show ?thesis using float by auto
  qed
  show ?thesis
    using nn small int float by blast
qed

theorem parseStageOrdinal_result_witness:
  "parseStageOrdinal fmt_integer (JStr ''stage iii'') \<in> {Fin 0, Fin 1, Fin 2, Fin 3, Fin 4, Fin 5}
   \<and> parseStageOrdinal fmt_integer (JStr ''x'') = Fin 0
   \<and> parseStageOrdinal fmt_integer (JNum (Fin 12)) = Fin 12
   \<and> parseStageOrdinal fmt_integer (JStr ([CHR 0xA0] @ ''2.5'')) = Fin (5 / 2)"
proof -
  have "stage_match ''stage iii'' \<noteq> None" by code_simp
  then have p: "stage_pattern (String_val fmt_integer (JStr ''stage iii''))"
    by (simp add: stage_pattern_iff String_val_def)
  have a: "parseStageOrdinal fmt_integer (JStr ''stage iii'') \<in> {Fin 0, Fin 1, Fin 2, Fin 3, Fin 4, Fin 5}"
    using parseStageOrdinal_result [of fmt_integer "JStr ''stage iii''"] p by blast
  have x1: "stage_match (String_val fmt_integer (JStr ''x'')) = None" by code_simp
  have x2: "map_of ROMAN_MAP (toUpperCase (trim (String_val fmt_integer (JStr ''x'')))) = None"
    by code_simp
  have x3: "parseFloat (toUpperCase (trim (String_val fmt_integer (JStr ''x'')))) = NaN"
    by code_simp
  have b: "parseStageOrdinal fmt_integer (JStr ''x'') = Fin 0"
    using parseStageOrdinal_result [of fmt_integer "JStr ''x''"] x1 x2 x3
    by (simp add: stage_pattern_iff)
  have n1: "stage_match (String_val fmt_integer (JNum (Fin 12))) = None" by code_simp
  have n2: "map_of ROMAN_MAP (toUpperCase (trim (String_val fmt_integer (JNum (Fin 12))))) = None"
    by code_simp
  have n3: "parseFloat (toUpperCase (trim (String_val fmt_integer (JNum (Fin 12))))) = Fin 12"
    by code_simp
  have c: "parseStageOrdinal fmt_integer (JNum (Fin 12)) = Fin 12"
    using parseStageOrdinal_result [of fmt_integer "JNum (Fin 12)"] n1 n2 n3
    by (simp add: stage_pattern_iff)
  have w1: "stage_match (String_val fmt_integer (JStr ([CHR 0xA0] @ ''2.5''))) = None"
    by code_simp
  have w2: "map_of ROMAN_MAP
      (toUpperCase (trim (String_val fmt_integer (JStr ([CHR 0xA0] @ ''2.5''))))) = None"
    by code_simp
  have w3: "parseFloat (toUpperCase (trim (String_val fmt_integer (JStr ([CHR 0xA0] @ ''2.5'')))))
      = Fin (5 / 2)"
    by code_simp
  have d: "parseStageOrdinal fmt_integer (JStr ([CHR 0xA0] @ ''2.5'')) = Fin (5 / 2)"
    using parseStageOrdinal_result [of fmt_integer "JStr ([CHR 0xA0] @ ''2.5'')"] w1 w2 w3
    by (simp add: stage_pattern_iff)
  show ?thesis using a b c d by blast
qed

section \<open>Properties of parseCSV\<close>

lemma split_nl_nonempty: "split_nl s \<noteq> []"
  by (induction s) auto

lemma trim_ends:
  assumes "trim x \<noteq> []"
  shows "\<not> isWhiteSpace (hd (trim x))" and "\<not> isWhiteSpace (last (trim x))"
proof -
  let ?a = "dropWhile isWhiteSpace x"
  let ?d = "dropWhile isWhiteSpace (rev ?a)"
  have t: "trim x = rev ?d" by (simp add: trim_def)
  with assms have d: "?d \<noteq> []" by simp
  then have "\<not> isWhiteSpace (hd ?d)" by (rule hd_dropWhile)
  then show "\<not> isWhiteSpace (last (trim x))"
    unfolding t using d by (simp add: last_rev)
  have a: "?a = rev ?d @ rev (takeWhile isWhiteSpace (rev ?a))"
    by (metis rev_append rev_rev_ident takeWhile_dropWhile_id)
  have ane: "?a \<noteq> []"
  proof
    assume e: "?a = []"
    have "?d = []" by (simp only: e rev.simps dropWhile.simps)
    with d show False by simp
  qed
  then have "\<not> isWhiteSpace (hd ?a)" by (rule hd_dropWhile)
  moreover have "hd ?a = hd (rev ?d)"
    using a d by (metis hd_append2 rev_is_Nil_conv)
  ultimately show "\<not> isWhiteSpace (hd (trim x))"
    unfolding t by simp
qed

lemma trim_id:
  assumes "x = [] \<or> (\<not> isWhiteSpace (hd x) \<and> \<not> isWhiteSpace (last x))"
  shows "trim x = x"
proof (cases x)
  case Nil
  then show ?thesis by (simp add: trim_def)
next
  case (Cons c cs)
  with assms have h: "\<not> isWhiteSpace c" and l: "\<not> isWhiteSpace (last x)" by auto
  have 1: "dropWhile isWhiteSpace x = x" using Cons h by simp
  have "rev x \<noteq> []" using Cons by simp
  then obtain y ys where yys: "rev x = y # ys" by (cases "rev x") auto
  have "hd (rev x) = last x" using Cons by (simp add: hd_rev)
  then have y: "y = last x" using yys by simp
  have 2: "dropWhile isWhiteSpace (rev x) = rev x"
    by (simp only: yys dropWhile.simps y l if_False)
  show ?thesis by (simp add: trim_def 1 2)
qed

lemma trim_idem: "trim (trim x) = trim x"
  using trim_ends [of x] by (intro trim_id) blast

lemma update_fresh: "k \<notin> fst ` set al \<Longrightarrow> AList.update k v al = al @ [(k, v)]"
  by (induction al) auto

lemma assign_keys_upper:
  "fst ` set (fst (assign h v st)) \<subseteq> fst ` set (fst st) \<union> {h}"
  by (cases st) (auto simp: assign_def dom_update)

lemma assign_keys_lower:
  "fst ` set (fst st) \<subseteq> fst ` set (fst (assign h v st))"
  by (cases st) (auto simp: assign_def dom_update)

lemma assign_keys_new:
  "h \<noteq> ''__proto__'' \<Longrightarrow> h \<in> fst ` set (fst (assign h v st))"
  by (cases st) (auto simp: assign_def dom_update)

lemma assign_other:
  "k \<noteq> h \<Longrightarrow> map_of (fst (assign h v st)) k = map_of (fst st) k"
  by (cases st) (auto simp: assign_def update_conv')

lemma assign_value:
  "h \<noteq> ''__proto__'' \<Longrightarrow> map_of (fst (assign h v st)) h = Some v"
  by (cases st) (auto simp: assign_def update_conv')

lemma fill_row_keys_upper:
  "fst ` set (fst (fill_row hs vs idx st)) \<subseteq> fst ` set (fst st) \<union> set hs"
proof (induction hs arbitrary: idx st)
  case Nil
  then show ?case by simp
next
  case (Cons h hs)
  have "fst ` set (fst (fill_row (h # hs) vs idx st))
          \<subseteq> fst ` set (fst (assign h (coerce (nth_opt vs idx)) st)) \<union> set hs"
    using Cons.IH by simp
  then show ?case
    using assign_keys_upper [of h "coerce (nth_opt vs idx)" st] by auto
qed

lemma fill_row_keys_kept:
  "fst ` set (fst st) \<subseteq> fst ` set (fst (fill_row hs vs idx st))"
proof (induction hs arbitrary: idx st)
  case Nil
  then show ?case by simp
next
  case (Cons h hs)
  have "fst ` set (fst (assign h (coerce (nth_opt vs idx)) st))
          \<subseteq> fst ` set (fst (fill_row (h # hs) vs idx st))"
    using Cons.IH by simp
  then show ?case
    using assign_keys_lower [of st h "coerce (nth_opt vs idx)"] by blast
qed

lemma fill_row_keys_lower:
  "set hs - {''__proto__''} \<subseteq> fst ` set (fst (fill_row hs vs idx st))"
proof (induction hs arbitrary: idx st)
  case Nil
  then show ?case by simp
next
  case (Cons h hs)
  let ?st = "assign h (coerce (nth_opt vs idx)) st"
  have tail: "set hs - {''__proto__''} \<subseteq> fst ` set (fst (fill_row (h # hs) vs idx st))"
    using Cons.IH by simp
  have "h \<in> fst ` set (fst (fill_row (h # hs) vs idx st))" if "h \<noteq> ''__proto__''"
  proof -
    have "h \<in> fst ` set (fst ?st)" using that by (rule assign_keys_new)
    then show ?thesis
      using fill_row_keys_kept [of ?st hs vs "Suc idx"] by auto
  qed
  then show ?case using tail by auto
qed

lemma fill_row_other:
  "h \<notin> set hs \<Longrightarrow> map_of (fst (fill_row hs vs idx st)) h = map_of (fst st) h"
  by (induction hs arbitrary: idx st) (auto simp: assign_other)

lemma fill_row_value:
  "j < length hs \<Longrightarrow> hs ! j \<notin> set (drop (Suc j) hs) \<Longrightarrow> hs ! j \<noteq> ''__proto__'' \<Longrightarrow>
   map_of (fst (fill_row hs vs idx st)) (hs ! j) = Some (coerce (nth_opt vs (idx + j)))"
proof (induction hs arbitrary: j idx st)
  case Nil
  then show ?case by simp
next
  case (Cons h hs)
  show ?case
  proof (cases j)
    case 0
    with Cons.prems have "h \<notin> set hs" "h \<noteq> ''__proto__''" by simp_all
    then show ?thesis
      using 0 by (simp add: fill_row_other assign_value)
  next
    case (Suc k)
    with Cons.prems have "k < length hs" "hs ! k \<notin> set (drop (Suc k) hs)"
      "hs ! k \<noteq> ''__proto__''" by simp_all
    from Cons.IH [OF this] show ?thesis
      using Suc by simp
  qed
qed

lemma parseCSV_rows:
  "parseCSV text = map (\<lambda>line. fst (fill_row (csv_headers text) (parseCSVLine line) 0 ([], True)))
                     (drop 1 (csv_lines text))"
  by (simp add: parseCSV_def csv_headers_def csv_lines_def Let_def split_nl_nonempty)

lemma toLowerChar_xob:
  "toLowerChar x = CHR ''x'' \<or> toLowerChar x = CHR ''o'' \<or> toLowerChar x = CHR ''b''
   \<longleftrightarrow> x \<in> set ''xXoObB''"
  unfolding toLowerChar_def lower_letters_def upper_letters_def
  by (simp split: if_splits)

lemma radix_letter_no_decimal:
  "x \<in> set ''xXoObB'' \<Longrightarrow> \<not> isDigit x \<and> x \<noteq> CHR ''.'' \<and> x \<noteq> CHR ''e'' \<and> x \<noteq> CHR ''E''"
  by (auto simp: isDigit_def)

lemma digitsVal_zero: "digitsVal 10 [CHR ''0''] = 0"
  by code_simp

lemma decimal_not_nondecimal:
  assumes "decimal_value t = Some r"
  shows "scan_nondecimal t = None"
proof (rule ccontr)
  assume "scan_nondecimal t \<noteq> None"
  then obtain x ds where t: "t = CHR ''0'' # x # ds"
    and x: "toLowerChar x = CHR ''x'' \<or> toLowerChar x = CHR ''o'' \<or> toLowerChar x = CHR ''b''"
    by (auto simp: scan_nondecimal_def split: list.splits if_splits)
  from x have "x \<in> set ''xXoObB''" unfolding toLowerChar_xob .
  from radix_letter_no_decimal [OF this] have "scan_decimal t = Some (0, x # ds)"
    unfolding t by (simp add: scan_decimal_def scan_exponent_def isDigit_def digitsVal_zero)
  then show False
    using assms unfolding t by (simp add: decimal_value_def)
qed

lemma decimal_value_Number:
  assumes "decimal_value t = Some r" and "trim t = t"
  shows "Number t = round64 r"
proof -
  obtain neg u where su: "scan_sign t = (neg, u)" by (cases "scan_sign t")
  from assms(1) su obtain v where v: "scan_decimal u = Some (v, [])"
    and r: "r = (if neg then - v else v)"
    by (auto simp: decimal_value_def split: option.splits list.splits)
  have "t \<noteq> []"
    using assms(1) by (auto simp: decimal_value_def scan_decimal_def)
  moreover have "u \<noteq> ''Infinity''"
    using v by (auto simp: scan_decimal_def isDigit_def)
  ultimately show ?thesis
    using decimal_not_nondecimal [OF assms(1)] assms(2) su v r
    by (simp add: Number_def)
qed

lemma coerce_Some:
  "coerce (Some v) =
     (if trim v = [] \<or> trim v = ''NA'' \<or> trim v = ''NaN'' then CNull
      else if Number (trim v) \<noteq> NaN then CNum (Number (trim v))
      else CStr (trim v))"
  by (simp add: coerce_def)

lemma coerce_decimal:
  assumes "decimal_value (trim v) = Some r"
  shows "coerce (Some v) = CNum (round64 r)"
proof -
  have n: "Number (trim v) = round64 r"
    using assms trim_idem by (rule decimal_value_Number)
  have "trim v \<noteq> []" "trim v \<noteq> ''NA''" "trim v \<noteq> ''NaN''"
    using assms by (auto simp: decimal_value_def scan_decimal_def isDigit_def)
  then show ?thesis
    by (simp add: coerce_Some n round64_not_NaN)
qed


lemma coerce_no_break_space: "coerce (Some ([CHR 0xA0] @ ''5'')) = CNum (Fin 5)"
  by code_simp

lemma parseCSV_proto_column:
  "parseCSV (''__proto__,a'' @ [CHR 0x0A] @ ''1,2'') = [[(''a'', CNum (Fin 2))]]"
  by code_simp

lemma coerce_examples:
  "coerce (Some ''12.5'') = CNum (Fin (25 / 2))"
  "coerce (Some ''1e3'') = CNum (Fin 1000)"
  "coerce (Some ''0x1A'') = CNum (Fin 26)"
  "coerce (Some ''Infinity'') = CNum PosInf"
  "coerce (Some ''abc'') = CStr ''abc''"
  "coerce (Some '' NA '') = CNull"
  by code_simp+

text \<open>
  Claim C4, as stated, at the field \<open>0x1A\<close>: it does not parse as a decimal number, yet
  it does not stay a string: it becomes the number 26.
\<close>

theorem parseCSV_hex_counterexample:
  "decimal_value ''0x1A'' = None
   \<and> parseCSV (''id'' @ [CHR 0x0A] @ ''0x1A'') = [[(''id'', CNum (Fin 26))]]
   \<and> parseCSV (''id'' @ [CHR 0x0A] @ ''0x1A'') \<noteq> [[(''id'', CStr ''0x1A'')]]"
  by code_simp

text \<open>
  Claim C4, amended: there is one record for each line after the first.  The keys of
  every record are columns of the header, and every column of the header other than
  \<open>__proto__\<close> is a key: a header without that name gives every record exactly its
  column set.  The value of such a column (the last with that name) is the coercion of
  the field at the column's index in the line, and null when the line has no field there;
  fields beyond the header are in no record.  The coercion trims the field; the empty
  text, \<open>NA\<close> and \<open>NaN\<close> become null; otherwise a text that the conversion to a number
  accepts becomes that number: every decimal literal does (with its value, rounded), and
  so do \<open>Infinity\<close> and the literals of base 16, 8 and 2; any other text stays a string,
  trimmed.
\<close>

theorem parseCSV_records:
  "length (parseCSV text) = length (csv_lines text) - 1
   \<and> (\<forall>i < length (parseCSV text).
        fst ` set (parseCSV text ! i) \<subseteq> set (csv_headers text)
        \<and> set (csv_headers text) - {''__proto__''} \<subseteq> fst ` set (parseCSV text ! i)
        \<and> (''__proto__'' \<notin> set (csv_headers text) \<longrightarrow>
             fst ` set (parseCSV text ! i) = set (csv_headers text))
        \<and> (\<forall>j < length (csv_headers text).
             csv_headers text ! j \<noteq> ''__proto__''
             \<and> csv_headers text ! j \<notin> set (drop (Suc j) (csv_headers text)) \<longrightarrow>
             map_of (parseCSV text ! i) (csv_headers text ! j)
               = Some (coerce (nth_opt (parseCSVLine (csv_lines text ! Suc i)) j))))
   \<and> coerce None = CNull
   \<and> coerce (Some v) =
        (if trim v = [] \<or> trim v = ''NA'' \<or> trim v = ''NaN'' then CNull
         else if Number (trim v) \<noteq> NaN then CNum (Number (trim v))
         else CStr (trim v))
   \<and> (decimal_value (trim v) = Some r \<longrightarrow> coerce (Some v) = CNum (round64 r))
   \<and> coerce (Some ''12.5'') = CNum (Fin (25 / 2))
   \<and> coerce (Some ''1e3'') = CNum (Fin 1000)
   \<and> coerce (Some ''0x1A'') = CNum (Fin 26)
   \<and> coerce (Some ''Infinity'') = CNum PosInf
   \<and> coerce (Some ''abc'') = CStr ''abc''"
proof -
  let ?hs = "csv_headers text"
  have len: "length (parseCSV text) = length (csv_lines text) - 1"
    by (simp add: parseCSV_rows)
  have row: "parseCSV text ! i
               = fst (fill_row ?hs (parseCSVLine (csv_lines text ! Suc i)) 0 ([], True))"
    if "i < length (parseCSV text)" for i
    using that by (simp add: parseCSV_rows)
  have upper: "fst ` set (parseCSV text ! i) \<subseteq> set ?hs" if "i < length (parseCSV text)" for i
    unfolding row [OF that]
    using fill_row_keys_upper [of ?hs "parseCSVLine (csv_lines text ! Suc i)" 0 "([], True)"]
    by simp
  have lower: "set ?hs - {''__proto__''} \<subseteq> fst ` set (parseCSV text ! i)"
    if "i < length (parseCSV text)" for i
    unfolding row [OF that] by (rule fill_row_keys_lower)
  have keys: "''__proto__'' \<notin> set ?hs \<longrightarrow> fst ` set (parseCSV text ! i) = set ?hs"
    if "i < length (parseCSV text)" for i
    using upper [OF that] lower [OF that] by blast
  have vals: "map_of (parseCSV text ! i) (?hs ! j)
               = Some (coerce (nth_opt (parseCSVLine (csv_lines text ! Suc i)) j))"
    if "i < length (parseCSV text)" "j < length ?hs" "?hs ! j \<noteq> ''__proto__''"
       "?hs ! j \<notin> set (drop (Suc j) ?hs)" for i j
    unfolding row [OF that(1)]
    using fill_row_value [OF that(2,4,3), of _ 0 "([], True)"] by simp
  have none: "coerce None = CNull"
    by (simp add: coerce_def)
  have dec: "decimal_value (trim v) = Some r \<longrightarrow> coerce (Some v) = CNum (round64 r)"
    using coerce_decimal by blast
  have per: "fst ` set (parseCSV text ! i) \<subseteq> set ?hs
        \<and> set ?hs - {''__proto__''} \<subseteq> fst ` set (parseCSV text ! i)
        \<and> (''__proto__'' \<notin> set ?hs \<longrightarrow> fst ` set (parseCSV text ! i) = set ?hs)
        \<and> (\<forall>j < length ?hs.
             ?hs ! j \<noteq> ''__proto__'' \<and> ?hs ! j \<notin> set (drop (Suc j) ?hs) \<longrightarrow>
             map_of (parseCSV text ! i) (?hs ! j)
               = Some (coerce (nth_opt (parseCSVLine (csv_lines text ! Suc i)) j)))"
    if i: "i < length (parseCSV text)" for i
  proof (intro conjI)
    show "fst ` set (parseCSV text ! i) \<subseteq> set ?hs" by (rule upper [OF i])
    show "set ?hs - {''__proto__''} \<subseteq> fst ` set (parseCSV text ! i)" by (rule lower [OF i])
    show "''__proto__'' \<notin> set ?hs \<longrightarrow> fst ` set (parseCSV text ! i) = set ?hs"
      by (rule keys [OF i])
    show "\<forall>j < length ?hs.
             ?hs ! j \<noteq> ''__proto__'' \<and> ?hs ! j \<notin> set (drop (Suc j) ?hs) \<longrightarrow>
             map_of (parseCSV text ! i) (?hs ! j)
               = Some (coerce (nth_opt (parseCSVLine (csv_lines text ! Suc i)) j))"
      using vals [OF i] by simp
  qed
  have all: "\<forall>i < length (parseCSV text).
        fst ` set (parseCSV text ! i) \<subseteq> set ?hs
        \<and> set ?hs - {''__proto__''} \<subseteq> fst ` set (parseCSV text ! i)
        \<and> (''__proto__'' \<notin> set ?hs \<longrightarrow> fst ` set (parseCSV text ! i) = set ?hs)
        \<and> (\<forall>j < length ?hs.
             ?hs ! j \<noteq> ''__proto__'' \<and> ?hs ! j \<notin> set (drop (Suc j) ?hs) \<longrightarrow>
             map_of (parseCSV text ! i) (?hs ! j)
               = Some (coerce (nth_opt (parseCSVLine (csv_lines text ! Suc i)) j)))"
    by (intro allI impI) (rule per)
  show ?thesis
    by (intro conjI) (rule len all none dec coerce_Some coerce_examples)+
qed

theorem parseCSV_records_witness:
  "csv_headers (''id,x'' @ [CHR 0x0A] @ ''0x1A'' @ [CHR 0x0A] @ ''7,b,c'') = [''id'', ''x'']
   \<and> map_of (parseCSV (''id,x'' @ [CHR 0x0A] @ ''0x1A'' @ [CHR 0x0A] @ ''7,b,c'') ! 0) ''x''
       = Some CNull
   \<and> fst ` set (parseCSV (''id,x'' @ [CHR 0x0A] @ ''0x1A'' @ [CHR 0x0A] @ ''7,b,c'') ! 1)
       = {''id'', ''x''}
   \<and> coerce (Some '' 42 '') = CNum (Fin 42)
   \<and> coerce (Some ([CHR 0xA0] @ ''5'')) = CNum (Fin 5)
   \<and> parseCSV (''__proto__,a'' @ [CHR 0x0A] @ ''1,2'') = [[(''a'', CNum (Fin 2))]]"
proof -
  let ?t = "''id,x'' @ [CHR 0x0A] @ ''0x1A'' @ [CHR 0x0A] @ ''7,b,c''"
  have h: "csv_headers ?t = [''id'', ''x'']" by code_simp
  have n: "length (parseCSV ?t) = 2" by code_simp
  have l: "parseCSVLine (csv_lines ?t ! Suc 0) = [''0x1A'']" by code_simp
  have d: "decimal_value (trim '' 42 '') = Some 42" by code_simp
  have r: "round64 42 = Fin 42" by code_simp
  note inst = parseCSV_records [of ?t "'' 42 ''" 42]
  from inst n have "\<forall>j < length (csv_headers ?t).
             csv_headers ?t ! j \<noteq> ''__proto__''
             \<and> csv_headers ?t ! j \<notin> set (drop (Suc j) (csv_headers ?t)) \<longrightarrow>
             map_of (parseCSV ?t ! 0) (csv_headers ?t ! j)
               = Some (coerce (nth_opt (parseCSVLine (csv_lines ?t ! Suc 0)) j))"
    by simp
  from this [unfolded h l, rule_format, of "Suc 0"]
  have "map_of (parseCSV ?t ! 0) ''x'' = Some (coerce (nth_opt [''0x1A''] (Suc 0)))"
    by simp
  then have a: "map_of (parseCSV ?t ! 0) ''x'' = Some CNull"
    by (simp add: nth_opt_def coerce_def)
  from inst n have "''__proto__'' \<notin> set (csv_headers ?t) \<longrightarrow>
      fst ` set (parseCSV ?t ! 1) = set (csv_headers ?t)"
    by simp
  then have b: "fst ` set (parseCSV ?t ! 1) = {''id'', ''x''}"
    unfolding h by auto
  from inst have "decimal_value (trim '' 42 '') = Some 42 \<longrightarrow>
      coerce (Some '' 42 '') = CNum (round64 42)"
    by blast
  with d r have c: "coerce (Some '' 42 '') = CNum (Fin 42)"
    by simp
  show ?thesis using h a b c coerce_no_break_space parseCSV_proto_column by blast
qed

section \<open>parseStageOrdinal on finite numbers\<close>

lemma toUpperChar_cases:
  "(c \<in> set lower_letters \<and> toUpperChar c \<in> set upper_letters)
   \<or> (c \<notin> set lower_letters \<and> toUpperChar c = c)"
proof (cases "map_of (zip lower_letters upper_letters) c")
  case None
  have "length lower_letters = length upper_letters"
    by (simp add: lower_letters_def upper_letters_def)
  with None have "c \<notin> set lower_letters"
    by (simp add: map_of_zip_is_None)
  then show ?thesis using None by (simp add: toUpperChar_def)
next
  case (Some u)
  then have "(c, u) \<in> set (zip lower_letters upper_letters)" by (rule map_of_SomeD)
  then have "c \<in> set lower_letters" "u \<in> set upper_letters"
    by (auto dest: set_zip_leftD set_zip_rightD)
  then show ?thesis using Some by (simp add: toUpperChar_def)
qed

lemma toUpperChar_non_letter:
  "d \<notin> set lower_letters \<Longrightarrow> d \<notin> set upper_letters \<Longrightarrow> (toUpperChar c = d) = (c = d)"
  using toUpperChar_cases [of c] by auto

lemma digit_no_letter: "isDigit d \<Longrightarrow> d \<notin> set lower_letters \<and> d \<notin> set upper_letters"
  by (auto simp: isDigit_def lower_letters_def upper_letters_def)

lemma digit_upper: "isDigit c \<Longrightarrow> toUpperChar c = c"
  using toUpperChar_cases [of c] digit_no_letter [of c] by auto

lemma isDigit_upper: "isDigit (toUpperChar c) = isDigit c"
  using toUpperChar_cases [of c] digit_no_letter [of c] digit_no_letter [of "toUpperChar c"]
  by auto

lemma point_upper: "(toUpperChar c = CHR ''.'') = (c = CHR ''.'')"
  by (rule toUpperChar_non_letter) (simp_all add: lower_letters_def upper_letters_def)

lemma minus_upper: "(toUpperChar c = CHR ''-'') = (c = CHR ''-'')"
  by (rule toUpperChar_non_letter) (simp_all add: lower_letters_def upper_letters_def)

lemma plus_upper: "(toUpperChar c = CHR ''+'') = (c = CHR ''+'')"
  by (rule toUpperChar_non_letter) (simp_all add: lower_letters_def upper_letters_def)

lemma exp_upper:
  "(toUpperChar c = CHR ''e'' \<or> toUpperChar c = CHR ''E'') = (c = CHR ''e'' \<or> c = CHR ''E'')"
  unfolding toUpperChar_def lower_letters_def upper_letters_def
  by (simp split: if_splits)

lemma toUpperChar_IV:
  "(toUpperChar c = CHR ''I'' \<or> toUpperChar c = CHR ''V'') = (c \<in> set ''iIvV'')"
  unfolding toUpperChar_def lower_letters_def upper_letters_def
  by (simp split: if_splits)

lemma toUpperCase_simps:
  "toUpperCase [] = []" "toUpperCase (c # cs) = toUpperChar c # toUpperCase cs"
  by (simp_all add: toUpperCase_def)

lemma takeWhile_digit_upper: "takeWhile isDigit (toUpperCase s) = takeWhile isDigit s"
  by (induction s) (auto simp: toUpperCase_simps isDigit_upper digit_upper)

lemma dropWhile_digit_upper:
  "dropWhile isDigit (toUpperCase s) = toUpperCase (dropWhile isDigit s)"
  by (induction s) (auto simp: toUpperCase_simps isDigit_upper)

lemma scan_sign_upper:
  "scan_sign (toUpperCase s) = (fst (scan_sign s), toUpperCase (snd (scan_sign s)))"
  by (cases s) (auto simp: toUpperCase_simps minus_upper plus_upper)

lemma scan_exponent_upper:
  "scan_exponent (toUpperCase s) = (fst (scan_exponent s), toUpperCase (snd (scan_exponent s)))"
proof (cases s)
  case Nil
  then show ?thesis by (simp add: scan_exponent_def toUpperCase_simps)
next
  case (Cons c cs)
  show ?thesis
  proof (cases "c = CHR ''e'' \<or> c = CHR ''E''")
    case True
    then have e: "toUpperChar c = CHR ''e'' \<or> toUpperChar c = CHR ''E''"
      using exp_upper by blast
    obtain neg t where st: "scan_sign cs = (neg, t)" by (cases "scan_sign cs")
    then have st': "scan_sign (toUpperCase cs) = (neg, toUpperCase t)"
      by (simp add: scan_sign_upper)
    show ?thesis
      unfolding Cons toUpperCase_simps scan_exponent_def
      using True e st st'
      by (simp add: takeWhile_digit_upper dropWhile_digit_upper toUpperCase_simps Let_def)
  next
    case False
    then have e: "\<not> (toUpperChar c = CHR ''e'' \<or> toUpperChar c = CHR ''E'')"
      using exp_upper by blast
    show ?thesis
      unfolding Cons toUpperCase_simps scan_exponent_def using False e
      by (simp add: toUpperCase_simps)
  qed
qed

lemma hd_point_upper:
  "(toUpperCase r \<noteq> [] \<and> hd (toUpperCase r) = CHR ''.'') = (r \<noteq> [] \<and> hd r = CHR ''.'')"
  by (cases r) (auto simp: toUpperCase_simps point_upper)

lemma scan_decimal_unfold:
  "scan_decimal s =
     (if takeWhile isDigit s = []
         \<and> (if dropWhile isDigit s \<noteq> [] \<and> hd (dropWhile isDigit s) = CHR ''.''
             then takeWhile isDigit (tl (dropWhile isDigit s)) else []) = []
      then None
      else Some
        (of_nat (digitsVal 10 (takeWhile isDigit s
            @ (if dropWhile isDigit s \<noteq> [] \<and> hd (dropWhile isDigit s) = CHR ''.''
               then takeWhile isDigit (tl (dropWhile isDigit s)) else [])))
          * pow10 (fst (scan_exponent
                (if dropWhile isDigit s \<noteq> [] \<and> hd (dropWhile isDigit s) = CHR ''.''
                 then dropWhile isDigit (tl (dropWhile isDigit s)) else dropWhile isDigit s))
              - int (length (if dropWhile isDigit s \<noteq> [] \<and> hd (dropWhile isDigit s) = CHR ''.''
               then takeWhile isDigit (tl (dropWhile isDigit s)) else []))),
         snd (scan_exponent
                (if dropWhile isDigit s \<noteq> [] \<and> hd (dropWhile isDigit s) = CHR ''.''
                 then dropWhile isDigit (tl (dropWhile isDigit s)) else dropWhile isDigit s))))"
  unfolding scan_decimal_def Let_def split_beta ..

lemma scan_decimal_upper:
  "scan_decimal (toUpperCase s) = map_option (\<lambda>(v, r). (v, toUpperCase r)) (scan_decimal s)"
proof -
  let ?r1 = "dropWhile isDigit s"
  have tl: "tl (toUpperCase ?r1) = toUpperCase (tl ?r1)"
    by (simp add: toUpperCase_def map_tl)
  have 1: "takeWhile isDigit (tl (toUpperCase ?r1)) = takeWhile isDigit (tl ?r1)"
    unfolding tl by (rule takeWhile_digit_upper)
  have 2: "dropWhile isDigit (tl (toUpperCase ?r1)) = toUpperCase (dropWhile isDigit (tl ?r1))"
    unfolding tl by (rule dropWhile_digit_upper)
  have 3: "(if b then toUpperCase x else toUpperCase y) = toUpperCase (if b then x else y)"
    for b x y by simp
  show ?thesis
    unfolding scan_decimal_unfold [of "toUpperCase s"] scan_decimal_unfold [of s]
      takeWhile_digit_upper dropWhile_digit_upper hd_point_upper 1 2 3 scan_exponent_upper
    by (simp only: fst_conv snd_conv option.map_disc_iff option.simps split: if_split)
      (simp only: option.map prod.case if_True if_False simp_thms split: if_split)
qed

lemma number_char_upper:
  assumes "c \<in> number_chars"
  shows "toUpperChar c \<in> set ''0123456789.E+-''"
proof (cases "c = CHR ''e''")
  case True
  have "toUpperChar (CHR ''e'') = CHR ''E''" by code_simp
  then show ?thesis using True by simp
next
  case False
  with assms have c: "c \<in> set ''0123456789.+-''"
    by (auto simp: number_chars_def)
  then have "c \<notin> set lower_letters"
    by (auto simp: lower_letters_def)
  then have "toUpperChar c = c"
    using toUpperChar_cases [of c] by simp
  then show ?thesis using c by auto
qed

lemma number_chars_no_space: "c \<in> number_chars \<Longrightarrow> \<not> isWhiteSpace c"
  by (auto simp: number_chars_def isWhiteSpace_def)

lemma number_text_trim: "set s \<subseteq> number_chars \<Longrightarrow> trim s = s"
proof (rule trim_id)
  assume a: "set s \<subseteq> number_chars"
  show "s = [] \<or> (\<not> isWhiteSpace (hd s) \<and> \<not> isWhiteSpace (last s))"
  proof (cases s)
    case Nil
    then show ?thesis by simp
  next
    case (Cons c cs)
    then have "hd s \<in> set s" "last s \<in> set s" by simp_all
    with a show ?thesis using number_chars_no_space by blast
  qed
qed

lemma number_text_no_stage:
  assumes "set s \<subseteq> number_chars"
  shows "stage_match s = None"
proof (rule ccontr)
  assume "stage_match s \<noteq> None"
  then have "CHR ''s'' \<in> set s \<or> CHR ''S'' \<in> set s" by (rule stage_match_has_S)
  with assms have "CHR ''s'' \<in> number_chars \<or> CHR ''S'' \<in> number_chars" by blast
  then show False by (simp add: number_chars_def)
qed

lemma number_text_no_roman:
  assumes "set s \<subseteq> number_chars"
  shows "map_of ROMAN_MAP (toUpperCase s) = None"
proof (rule ccontr)
  assume "map_of ROMAN_MAP (toUpperCase s) \<noteq> None"
  then obtain v where "map_of ROMAN_MAP (toUpperCase s) = Some v" by auto
  from roman_key_chars [OF this]
  have k: "set (toUpperCase s) \<subseteq> {CHR ''I'', CHR ''V''}" "toUpperCase s \<noteq> []" by simp_all
  then obtain c cs where s: "s = c # cs" by (cases s) (auto simp: toUpperCase_def)
  with k(1) have "toUpperChar c = CHR ''I'' \<or> toUpperChar c = CHR ''V''"
    by (simp add: toUpperCase_def)
  then have "c \<in> set ''iIvV''" unfolding toUpperChar_IV .
  moreover have "c \<in> number_chars" using assms s by simp
  ultimately show False by (auto simp: number_chars_def)
qed

lemma number_text_parseFloat:
  assumes "set s \<subseteq> number_chars" and "s \<noteq> []" and "Number s \<noteq> NaN"
  shows "parseFloat (toUpperCase s) = Number s"
proof -
  obtain neg u where su: "scan_sign s = (neg, u)" by (cases "scan_sign s")
  have t: "trim s = s" using assms(1) by (rule number_text_trim)
  have up: "set (toUpperCase s) \<subseteq> set ''0123456789.E+-''"
    using assms(1) number_char_upper by (auto simp: toUpperCase_def)
  have nd: "scan_nondecimal s = None"
  proof (rule ccontr)
    assume "scan_nondecimal s \<noteq> None"
    then obtain z x ds where "s = z # x # ds"
      and "toLowerChar x = CHR ''x'' \<or> toLowerChar x = CHR ''o'' \<or> toLowerChar x = CHR ''b''"
      by (auto simp: scan_nondecimal_def split: list.splits if_splits)
    then have "x \<in> set ''xXoObB''" "x \<in> number_chars"
      using assms(1) unfolding toLowerChar_xob by simp_all
    then show False by (auto simp: number_chars_def)
  qed
  have uset: "set u \<subseteq> set s"
    using su by (cases s) (auto split: if_splits)
  have ninf: "u \<noteq> ''Infinity''"
    using uset assms(1) by (auto simp: number_chars_def)
  from assms(2,3) t nd su ninf obtain v where v: "scan_decimal u = Some (v, [])"
    and n: "Number s = round64 (if neg then - v else v)"
    by (auto simp: Number_def split: option.splits list.splits)
  have ws: "trimStart (toUpperCase s) = toUpperCase s"
  proof (cases s)
    case Nil
    then show ?thesis using assms(2) by simp
  next
    case (Cons c cs)
    then have "toUpperChar c \<in> set ''0123456789.E+-''"
      using up by (simp add: toUpperCase_def)
    then have "\<not> isWhiteSpace (toUpperChar c)"
      by (auto simp: isWhiteSpace_def)
    then show ?thesis
      using Cons by (simp add: trimStart_def toUpperCase_def)
  qed
  have su': "scan_sign (toUpperCase s) = (neg, toUpperCase u)"
    using su by (simp add: scan_sign_upper)
  have "set (toUpperCase u) \<subseteq> set ''0123456789.E+-''"
    using uset up by (auto simp: toUpperCase_def)
  moreover have "CHR ''I'' \<in> set (toUpperCase u)" if "take 8 (toUpperCase u) = ''Infinity''"
  proof -
    have "CHR ''I'' \<in> set (take 8 (toUpperCase u))" unfolding that by simp
    then show ?thesis by (rule in_set_takeD)
  qed
  ultimately have ninf': "take 8 (toUpperCase u) \<noteq> ''Infinity''"
    by auto
  have "scan_decimal (toUpperCase u) = Some (v, [])"
    by (simp add: scan_decimal_upper v toUpperCase_simps)
  then show ?thesis
    unfolding parseFloat_def ws su' n using ninf' by simp
qed

text \<open>
  Claim C10: parseStageOrdinal is the identity on every finite number, given what number
  formatting promises of the number's text.  The text has no letter of "stage" but \<open>e\<close>,
  so the pattern does not match; in upper case it is no key of the table; and parseFloat
  reads from the upper-cased text what the conversion to a number reads from the text.
\<close>

theorem parseStageOrdinal_finite_identity:
  assumes "formats_number fmt x"
  shows "parseStageOrdinal fmt (JNum (Fin x)) = Fin x"
proof -
  let ?s = "fmt x"
  from assms have ne: "?s \<noteq> []" and cs: "set ?s \<subseteq> number_chars" and n: "Number ?s = Fin x"
    by (simp_all add: formats_number_def)
  have "parseFloat (toUpperCase ?s) = Fin x"
    using number_text_parseFloat [OF cs ne] n by simp
  then show ?thesis
    using number_text_no_stage [OF cs] number_text_no_roman [OF cs] number_text_trim [OF cs]
    by (simp add: parseStageOrdinal_def String_val_def String_num_def)
qed

theorem parseStageOrdinal_finite_identity_witness:
  "formats_number fmt_integer 2 \<and> parseStageOrdinal fmt_integer (JNum (Fin 2)) = Fin 2
   \<and> formats_number fmt_integer (- 35)
   \<and> parseStageOrdinal fmt_integer (JNum (Fin (- 35))) = Fin (- 35)
   \<and> formats_number (\<lambda>x. ''-3.5'') (- 7 / 2)
   \<and> parseStageOrdinal (\<lambda>x. ''-3.5'') (JNum (Fin (- 7 / 2))) = Fin (- 7 / 2)"
proof -
  have a: "formats_number fmt_integer 2"
    unfolding formats_number_def number_chars_def by code_simp
  have b: "formats_number fmt_integer (- 35)"
    unfolding formats_number_def number_chars_def by code_simp
  have c: "formats_number (\<lambda>x. ''-3.5'') (- 7 / 2)"
    unfolding formats_number_def number_chars_def by code_simp
  show ?thesis
    using a b c parseStageOrdinal_finite_identity [OF a] parseStageOrdinal_finite_identity [OF b]
      parseStageOrdinal_finite_identity [OF c]
    by blast
qed

section \<open>Export and re-parse\<close>

lemma includes_comma: "includes_str s '','' \<longleftrightarrow> CHR '','' \<in> set s"
  by (induction s) auto

lemma csv_scan_plain:
  "CHR 0x22 \<notin> set f \<Longrightarrow> CHR '','' \<notin> set f \<Longrightarrow>
   csv_scan (f @ rest) result cur q = csv_scan rest result (cur @ f) q"
  by (induction f arbitrary: cur) auto

lemma csv_scan_inside:
  "CHR 0x22 \<notin> set f \<Longrightarrow> csv_scan (f @ rest) result cur True = csv_scan rest result (cur @ f) True"
  by (induction f arbitrary: cur) auto

lemma csv_scan_field:
  assumes "CHR 0x22 \<notin> set f"
  shows "csv_scan (csv_field f @ rest) result [] False = csv_scan rest result f False"
proof (cases "CHR '','' \<in> set f")
  case True
  have "csv_scan (csv_field f @ rest) result [] False
          = csv_scan (f @ CHR 0x22 # rest) result [] True"
    using True by (simp add: csv_field_def)
  also have "\<dots> = csv_scan (CHR 0x22 # rest) result f True"
    using csv_scan_inside [OF assms, of "CHR 0x22 # rest" result "[]"] by simp
  also have "\<dots> = csv_scan rest result f False" by simp
  finally show ?thesis .
next
  case False
  then show ?thesis
    using csv_scan_plain [OF assms False, of rest result "[]" False]
    by (simp add: csv_field_def)
qed

lemma csv_scan_fields:
  "fs \<noteq> [] \<Longrightarrow> \<forall>f \<in> set fs. CHR 0x22 \<notin> set f \<and> trim f = f \<Longrightarrow>
   csv_scan (join '','' (map csv_field fs)) result [] False = result @ fs"
proof (induction fs arbitrary: result rule: induct_list012)
  case 1
  then show ?case by simp
next
  case (2 f)
  then show ?case
    using csv_scan_field [of f "[]" result] by simp
next
  case (3 f g gs)
  have q: "CHR 0x22 \<notin> set f" and t: "trim f = f" using "3.prems"(2) by simp_all
  have "csv_scan (join '','' (map csv_field (f # g # gs))) result [] False
          = csv_scan (csv_field f @ (CHR '','' # join '','' (map csv_field (g # gs)))) result [] False"
    by simp
  also have "\<dots> = csv_scan (CHR '','' # join '','' (map csv_field (g # gs))) result f False"
    using q by (rule csv_scan_field)
  also have "\<dots> = csv_scan (join '','' (map csv_field (g # gs))) (result @ [f]) [] False"
    using t by simp
  also have "\<dots> = (result @ [f]) @ (g # gs)"
    using "3.prems"(2) by (intro "3.IH"(2)) simp_all
  finally show ?case by simp
qed

lemma parseCSVLine_fields:
  "fs \<noteq> [] \<Longrightarrow> \<forall>f \<in> set fs. CHR 0x22 \<notin> set f \<and> trim f = f \<Longrightarrow>
   parseCSVLine (join '','' (map csv_field fs)) = fs"
  using csv_scan_fields [of fs "[]"] by (simp add: parseCSVLine_def)

lemma split_nl_append:
  "CHR 0x0A \<notin> set x \<Longrightarrow> split_nl (x @ r) = (x @ hd (split_nl r)) # tl (split_nl r)"
  by (induction x) (auto simp: split_nl_nonempty)

lemma split_nl_join:
  "ls \<noteq> [] \<Longrightarrow> \<forall>l \<in> set ls. CHR 0x0A \<notin> set l \<Longrightarrow> split_nl (join [CHR 0x0A] ls) = ls"
proof (induction ls rule: induct_list012)
  case 1
  then show ?case by simp
next
  case (2 x)
  then show ?case using split_nl_append [of x "[]"] by simp
next
  case (3 x y zs)
  have "split_nl (join [CHR 0x0A] (x # y # zs)) = split_nl (x @ CHR 0x0A # join [CHR 0x0A] (y # zs))"
    by simp
  also have "\<dots> = x # split_nl (join [CHR 0x0A] (y # zs))"
    using "3.prems"(2) split_nl_append [of x "CHR 0x0A # join [CHR 0x0A] (y # zs)"] by simp
  also have "\<dots> = x # y # zs"
    using "3.prems"(2) "3.IH"(2) by simp
  finally show ?case .
qed

lemma set_join: "set (join sep xs) \<subseteq> set sep \<union> \<Union> (set ` set xs)"
  by (induction sep xs rule: join.induct) auto

lemma trim_id_iff: "trim x = x \<longleftrightarrow> x = [] \<or> (\<not> isWhiteSpace (hd x) \<and> \<not> isWhiteSpace (last x))"
  using trim_id [of x] trim_ends [of x] by (cases "x = []") auto

lemma join_comma_ends:
  "\<forall>g \<in> set gs. trim g = g \<Longrightarrow> trim (join '','' gs) = join '','' gs"
proof (induction gs rule: induct_list012)
  case 1
  then show ?case by (simp add: trim_def)
next
  case (2 g)
  then show ?case by simp
next
  case (3 g h hs)
  let ?J = "join '','' (h # hs)"
  have J: "?J = [] \<or> (\<not> isWhiteSpace (hd ?J) \<and> \<not> isWhiteSpace (last ?J))"
    using "3.IH"(2) "3.prems" by (simp add: trim_id_iff)
  have g: "g = [] \<or> (\<not> isWhiteSpace (hd g) \<and> \<not> isWhiteSpace (last g))"
    using "3.prems" by (simp add: trim_id_iff)
  have c: "\<not> isWhiteSpace (CHR '','')" by (simp add: isWhiteSpace_def)
  have "\<not> isWhiteSpace (hd (g @ CHR '','' # ?J))"
    using g c by (cases g) auto
  moreover have "\<not> isWhiteSpace (last (g @ CHR '','' # ?J))"
    using J c by (cases "?J = []") auto
  ultimately show ?case
    by (simp add: trim_id_iff)
qed

lemma join_nl_hd: "x \<noteq> [] \<Longrightarrow> hd (join sep (x # xs)) = hd x"
  by (cases xs) auto

lemma join_last_nonempty:
  "xs \<noteq> [] \<Longrightarrow> last xs \<noteq> [] \<Longrightarrow>
   join sep xs \<noteq> [] \<and> last (join sep xs) = last (last xs)"
proof (induction sep xs rule: join.induct)
  case (1 sep)
  then show ?case by simp
next
  case (2 sep x)
  then show ?case by simp
next
  case (3 sep x y ys)
  then have "join sep (y # ys) \<noteq> [] \<and> last (join sep (y # ys)) = last (last (y # ys))"
    by simp
  then show ?case by simp
qed

lemma join_nl_last: "xs \<noteq> [] \<Longrightarrow> last xs \<noteq> [] \<Longrightarrow> last (join sep xs) = last (last xs)"
  by (simp add: join_last_nonempty)

lemma join_nonempty: "x \<noteq> [] \<Longrightarrow> join sep (x # xs) \<noteq> []"
  by (cases xs) auto

lemma join_nl_trim:
  assumes "x \<noteq> []" "trim x = x" "last (x # xs) \<noteq> []" "trim (last (x # xs)) = last (x # xs)"
  shows "trim (join sep (x # xs)) = join sep (x # xs)"
proof -
  have "\<not> isWhiteSpace (hd x)" using assms(1,2) by (simp add: trim_id_iff)
  then have 1: "\<not> isWhiteSpace (hd (join sep (x # xs)))"
    using assms(1) by (simp add: join_nl_hd)
  have "\<not> isWhiteSpace (last (last (x # xs)))"
    using assms(3,4) trim_id_iff by blast
  then have 2: "\<not> isWhiteSpace (last (join sep (x # xs)))"
    using assms(3) join_nl_last [of "x # xs" sep] by simp
  show ?thesis using 1 2 by (simp add: trim_id_iff)
qed

lemma number_chars_plain:
  assumes "set f \<subseteq> number_chars"
  shows "CHR 0x22 \<notin> set f" "CHR 0x0A \<notin> set f" "CHR '','' \<notin> set f" "CHR ''N'' \<notin> set f"
  using assms by (auto simp: number_chars_def)

lemma infinity_texts:
  "coerce (Some ''Infinity'') = CNum PosInf" "coerce (Some ''-Infinity'') = CNum NegInf"
  "trim ''Infinity'' = ''Infinity''" "trim ''-Infinity'' = ''-Infinity''"
  by code_simp+

lemma csv_field_trim: "trim f = f \<Longrightarrow> trim (csv_field f) = csv_field f"
  by (simp add: csv_field_def trim_id_iff isWhiteSpace_def)

lemma csv_field_no_newline: "CHR 0x0A \<notin> set f \<Longrightarrow> CHR 0x0A \<notin> set (csv_field f)"
  by (simp add: csv_field_def)

lemma csv_field_nonempty: "f \<noteq> [] \<Longrightarrow> csv_field f \<noteq> []"
  by (simp add: csv_field_def)

lemma safe_cell_text:
  assumes "safe_cell fmt c"
  shows "CHR 0x22 \<notin> set (cell_text fmt c)" and "CHR 0x0A \<notin> set (cell_text fmt c)"
    and "trim (cell_text fmt c) = cell_text fmt c"
    and "render fmt inherited header (Some c) = csv_field (cell_text fmt c)"
    and "coerce (Some (cell_text fmt c)) = null_if_empty c"
    and "c \<noteq> CNull \<Longrightarrow> c \<noteq> CStr [] \<Longrightarrow> cell_text fmt c \<noteq> []"
proof -
  have "CHR 0x22 \<notin> set (cell_text fmt c) \<and> CHR 0x0A \<notin> set (cell_text fmt c)
      \<and> trim (cell_text fmt c) = cell_text fmt c
      \<and> render fmt inherited header (Some c) = csv_field (cell_text fmt c)
      \<and> coerce (Some (cell_text fmt c)) = null_if_empty c
      \<and> (c \<noteq> CNull \<and> c \<noteq> CStr [] \<longrightarrow> cell_text fmt c \<noteq> [])"
  proof (cases c)
    case CNull
    then show ?thesis
      by (simp add: cell_text_def render_def csv_field_def coerce_def trim_def null_if_empty_def)
  next
    case (CStr s)
    with assms have p: "plain_text s" and s: "s \<noteq> ''NA''" "s \<noteq> ''NaN''"
      and n: "s \<noteq> [] \<longrightarrow> Number s = NaN"
      by (simp_all add: safe_cell_def)
    from p have t: "trim s = s" and q: "CHR 0x22 \<notin> set s" "CHR 0x0A \<notin> set s"
      by (simp_all add: plain_text_def)
    have "coerce (Some s) = null_if_empty (CStr s)"
      using s n by (simp add: coerce_def t null_if_empty_def)
    then show ?thesis
      using CStr t q by (simp add: cell_text_def render_def csv_field_def includes_comma)
  next
    case (CNum x)
    show ?thesis
    proof (cases x)
      case NaN
      with assms CNum show ?thesis by (simp add: safe_cell_def)
    next
      case PosInf
      then show ?thesis
        using CNum infinity_texts
        by (simp add: cell_text_def render_def csv_field_def String_num_def null_if_empty_def)
    next
      case NegInf
      then show ?thesis
        using CNum infinity_texts
        by (simp add: cell_text_def render_def csv_field_def String_num_def null_if_empty_def)
    next
      case (Fin r)
      with assms CNum have f: "fmt r \<noteq> []" "set (fmt r) \<subseteq> number_chars"
        "Number (fmt r) = Fin r"
        by (simp_all add: safe_cell_def formats_number_def)
      note pl = number_chars_plain [OF f(2)]
      have t: "trim (fmt r) = fmt r" using f(2) by (rule number_text_trim)
      have "fmt r \<noteq> ''NA''" "fmt r \<noteq> ''NaN''" using pl(4) by auto
      then have "coerce (Some (fmt r)) = CNum (Fin r)"
        using f(1,3) by (simp add: coerce_def t)
      then show ?thesis
        using CNum Fin pl t f(1)
        by (simp add: cell_text_def render_def csv_field_def String_num_def null_if_empty_def)
    qed
  qed
  then show "CHR 0x22 \<notin> set (cell_text fmt c)" and "CHR 0x0A \<notin> set (cell_text fmt c)"
    and "trim (cell_text fmt c) = cell_text fmt c"
    and "render fmt inherited header (Some c) = csv_field (cell_text fmt c)"
    and "coerce (Some (cell_text fmt c)) = null_if_empty c"
    and "c \<noteq> CNull \<Longrightarrow> c \<noteq> CStr [] \<Longrightarrow> cell_text fmt c \<noteq> []"
    by blast+
qed

lemma join_comma_nonempty: "gs \<noteq> [] \<Longrightarrow> (length gs = 1 \<longrightarrow> hd gs \<noteq> []) \<Longrightarrow> join '','' gs \<noteq> []"
  by (induction gs rule: induct_list012) auto

lemma join_comma_no_newline:
  "\<forall>g \<in> set gs. CHR 0x0A \<notin> set g \<Longrightarrow> CHR 0x0A \<notin> set (join '','' gs)"
  using set_join [of "'',''" gs] by auto

lemma map_of_in_keys:
  assumes "h \<in> fst ` set row"
  shows "\<exists>c. map_of row h = Some c \<and> c \<in> snd ` set row"
proof -
  from assms obtain c where "map_of row h = Some c"
    by (metis domD dom_map_of_conv_image_fst)
  moreover from this have "(h, c) \<in> set row" by (rule map_of_SomeD)
  then have "c \<in> snd ` set row" by force
  ultimately show ?thesis by blast
qed

lemma set_object_keys: "set (object_keys row) = fst ` set row"
  by (auto simp: object_keys_def)

lemma length_object_keys: "length (object_keys row) = length row"
  using sum_length_filter_compl [of isArrayIndex "map fst row"]
  by (simp add: object_keys_def)

lemma distinct_object_keys: "distinct (map fst row) \<Longrightarrow> distinct (object_keys row)"
  by (auto simp: object_keys_def)

lemma export_parse_rows:
  assumes "exportable fmt data"
  shows "length (parseCSV (csvContent fmt inherited data)) = length data
         \<and> (\<forall>i < length data.
               fst ` set (parseCSV (csvContent fmt inherited data) ! i) = fst ` set (data ! i)
               \<and> map_of (parseCSV (csvContent fmt inherited data) ! i)
                   = map_option null_if_empty \<circ> map_of (data ! i))"
proof -
  define headers where "headers = object_keys (hd data)"
  define vals where "vals = (\<lambda>row. map (\<lambda>h. cell_text fmt (the (map_of row h))) headers)"
  define dline where "dline = (\<lambda>row. join '','' (map csv_field (vals row)))"
  define hline where "hline = join '','' headers"
  from assms have ne: "data \<noteq> []" and hne0: "map fst (hd data) \<noteq> []"
    and sh0: "list_all safe_header (map fst (hd data))"
    and rows0: "\<forall>row \<in> set data. distinct (map fst row) \<and> fst ` set row = fst ` set (hd data)
                 \<and> (\<forall>c \<in> snd ` set row. safe_cell fmt c)"
    and one0: "length (hd data) = 1 \<longrightarrow>
            fst (hd (hd data)) \<noteq> []
            \<and> map_of (last data) (fst (hd (hd data))) \<noteq> Some CNull
            \<and> map_of (last data) (fst (hd (hd data))) \<noteq> Some (CStr [])"
    unfolding exportable_def by blast+
  have hset: "set headers = fst ` set (hd data)"
    by (simp add: headers_def set_object_keys)
  have hlen: "length headers = length (hd data)"
    by (simp add: headers_def length_object_keys)
  have hne: "headers \<noteq> []"
    using hne0 hlen by (cases headers) auto
  have "hd data \<in> set data" using ne by simp
  then have "distinct (map fst (hd data))" using rows0 by blast
  then have dist: "distinct headers"
    unfolding headers_def by (rule distinct_object_keys)
  have sh: "\<forall>h \<in> set headers. safe_header h"
    using sh0 unfolding hset by (simp add: list_all_iff)
  have rows: "\<forall>row \<in> set data. fst ` set row = set headers
                 \<and> (\<forall>c \<in> snd ` set row. safe_cell fmt c)"
    unfolding hset using rows0 by blast
  have one: "length headers = 1 \<longrightarrow>
                hd headers \<noteq> [] \<and> map_of (last data) (hd headers) \<noteq> Some CNull
                \<and> map_of (last data) (hd headers) \<noteq> Some (CStr [])"
  proof
    assume l1: "length headers = 1"
    then have "length (hd data) = 1" using hlen by simp
    then obtain kv where kv: "hd data = [kv]" by (cases "hd data") auto
    then have "set headers = {fst kv}" using hset by simp
    with l1 have "hd headers = fst kv" by (cases headers) auto
    then have "hd headers = fst (hd (hd data))" using kv by simp
    then show "hd headers \<noteq> [] \<and> map_of (last data) (hd headers) \<noteq> Some CNull
                \<and> map_of (last data) (hd headers) \<noteq> Some (CStr [])"
      using one0 \<open>length (hd data) = 1\<close> by simp
  qed
  have noproto: "''__proto__'' \<notin> set headers"
    using sh by (auto simp: safe_header_def)
  have hd0: "hd data = data ! 0" using ne by (simp add: hd_conv_nth)
  text \<open>The cells of a row under the headers.\<close>
  have cell: "\<exists>c. map_of row h = Some c \<and> safe_cell fmt c"
    if "row \<in> set data" "h \<in> set headers" for row h
  proof -
    from that rows have "h \<in> fst ` set row" by blast
    from map_of_in_keys [OF this] that(1) rows show ?thesis by blast
  qed
  have vals_ok: "\<forall>f \<in> set (vals row). CHR 0x22 \<notin> set f \<and> trim f = f \<and> CHR 0x0A \<notin> set f"
    if "row \<in> set data" for row
  proof
    fix f assume "f \<in> set (vals row)"
    then obtain h where h: "h \<in> set headers" and f: "f = cell_text fmt (the (map_of row h))"
      by (auto simp: vals_def)
    from cell [OF that h] obtain c where "map_of row h = Some c" "safe_cell fmt c" by blast
    then show "CHR 0x22 \<notin> set f \<and> trim f = f \<and> CHR 0x0A \<notin> set f"
      using safe_cell_text(1,2,3) [of fmt c] f by simp
  qed
  have vals_len: "length (vals row) = length headers" "vals row \<noteq> []" for row
    using hne by (simp_all add: vals_def)
  have line_eq: "join '','' (map (\<lambda>header. render fmt inherited header (map_of row header))
                                  headers) = dline row"
    if "row \<in> set data" for row
  proof -
    have "render fmt inherited h (map_of row h) = csv_field (cell_text fmt (the (map_of row h)))"
      if "h \<in> set headers" for h
    proof -
      from cell [OF \<open>row \<in> set data\<close> that] obtain c where
        "map_of row h = Some c" "safe_cell fmt c" by blast
      then show ?thesis using safe_cell_text(4) [of fmt c inherited h] by simp
    qed
    then have "map (\<lambda>header. render fmt inherited header (map_of row header)) headers
                 = map csv_field (vals row)"
      by (simp add: vals_def)
    then show ?thesis by (simp add: dline_def)
  qed
  have content: "csvContent fmt inherited data = join [CHR 0x0A] (hline # map dline data)"
    using line_eq by (simp add: csvContent_def hd0 [symmetric] headers_def [symmetric] hline_def
        Let_def cong: map_cong)
  text \<open>The header line.\<close>
  have hfield: "csv_field h = h" "CHR 0x22 \<notin> set h" "trim h = h" "CHR 0x0A \<notin> set h"
    if "h \<in> set headers" for h
    using sh that by (auto simp: safe_header_def plain_text_def csv_field_def)
  have hline_fields: "hline = join '','' (map csv_field headers)"
    using hfield(1) by (simp add: hline_def cong: map_cong)
  have parse_h: "parseCSVLine hline = headers"
    unfolding hline_fields using hne hfield(2,3) by (intro parseCSVLine_fields) auto
  have h_ne: "hline \<noteq> []"
    unfolding hline_def using hne one by (intro join_comma_nonempty) auto
  have h_trim: "trim hline = hline"
    unfolding hline_def using hfield(3) by (intro join_comma_ends) auto
  have h_nl: "CHR 0x0A \<notin> set hline"
    unfolding hline_def using hfield(4) by (intro join_comma_no_newline) auto
  text \<open>The data lines.\<close>
  have parse_d: "parseCSVLine (dline row) = vals row" if "row \<in> set data" for row
    unfolding dline_def using vals_len(2) vals_ok [OF that] by (intro parseCSVLine_fields) auto
  have d_trim: "trim (dline row) = dline row" if "row \<in> set data" for row
    unfolding dline_def using vals_ok [OF that] csv_field_trim
    by (intro join_comma_ends) auto
  have d_nl: "CHR 0x0A \<notin> set (dline row)" if "row \<in> set data" for row
    unfolding dline_def using vals_ok [OF that] csv_field_no_newline
    by (intro join_comma_no_newline) auto
  have last_in: "last data \<in> set data" using ne by simp
  have d_last_ne: "dline (last data) \<noteq> []"
  proof -
    have "length (map csv_field (vals (last data))) = 1 \<longrightarrow>
            hd (map csv_field (vals (last data))) \<noteq> []"
    proof
      assume "length (map csv_field (vals (last data))) = 1"
      then have l1: "length headers = 1" by (simp add: vals_len)
      then obtain h where hs: "headers = [h]"
        by (cases headers) auto
      from one l1 hs have "map_of (last data) h \<noteq> Some CNull"
        "map_of (last data) h \<noteq> Some (CStr [])" by simp_all
      moreover from cell [OF last_in, of h] hs obtain c where
        c: "map_of (last data) h = Some c" "safe_cell fmt c" by auto
      ultimately have "c \<noteq> CNull" "c \<noteq> CStr []" by auto
      then have "cell_text fmt c \<noteq> []" using safe_cell_text(6) [OF c(2)] by simp
      then show "hd (map csv_field (vals (last data))) \<noteq> []"
        using hs c(1) by (simp add: vals_def csv_field_nonempty)
    qed
    then show ?thesis
      unfolding dline_def using vals_len(2) by (intro join_comma_nonempty) auto
  qed
  text \<open>The whole text: trimming changes nothing, and the lines come back.\<close>
  have last_line: "last (hline # map dline data) = dline (last data)"
    using ne by (simp add: last_map)
  have "trim (join [CHR 0x0A] (hline # map dline data)) = join [CHR 0x0A] (hline # map dline data)"
    using h_ne h_trim d_last_ne d_trim [OF last_in] unfolding last_line [symmetric]
    by (intro join_nl_trim) auto
  moreover have "split_nl (join [CHR 0x0A] (hline # map dline data)) = hline # map dline data"
    using h_nl d_nl by (intro split_nl_join) auto
  ultimately have lines: "csv_lines (csvContent fmt inherited data) = hline # map dline data"
    by (simp add: csv_lines_def content)
  then have hdrs: "csv_headers (csvContent fmt inherited data) = headers"
    by (simp add: csv_headers_def parse_h)
  have parsed: "parseCSV (csvContent fmt inherited data)
                  = map (\<lambda>row. fst (fill_row headers (vals row) 0 ([], True))) data"
    unfolding parseCSV_rows lines hdrs using parse_d by simp
  have len: "length (parseCSV (csvContent fmt inherited data)) = length data"
    by (simp add: parsed)
  have row_eq: "fst ` set (parseCSV (csvContent fmt inherited data) ! i) = fst ` set (data ! i)
               \<and> map_of (parseCSV (csvContent fmt inherited data) ! i)
                   = map_option null_if_empty \<circ> map_of (data ! i)"
    if "i < length data" for i
  proof -
    let ?row = "data ! i"
    let ?res = "fst (fill_row headers (vals ?row) 0 ([], True))"
    have in_data: "?row \<in> set data" using that by simp
    have res: "parseCSV (csvContent fmt inherited data) ! i = ?res"
      using that by (simp add: parsed)
    have "fst ` set ?res \<subseteq> set headers"
      using fill_row_keys_upper [of headers "vals ?row" 0 "([], True)"] by simp
    moreover have "set headers \<subseteq> fst ` set ?res"
      using fill_row_keys_lower [of headers "vals ?row" 0 "([], True)"] noproto by auto
    ultimately have keys: "fst ` set ?res = fst ` set ?row"
      using rows in_data by auto
    have "map_of ?res h = (map_option null_if_empty \<circ> map_of ?row) h" for h
    proof (cases "h \<in> set headers")
      case False
      then have "map_of ?res h = None" by (simp add: fill_row_other)
      moreover from False rows in_data have "h \<notin> fst ` set ?row" by blast
      then have "map_of ?row h = None" by (simp add: map_of_eq_None_iff)
      ultimately show ?thesis by simp
    next
      case True
      then obtain j where j: "j < length headers" "headers ! j = h"
        by (auto simp: in_set_conv_nth)
      have "headers ! j \<notin> set (drop (Suc j) headers)"
        using dist j(1)
        by (metis Cons_nth_drop_Suc append_take_drop_id distinct.simps(2) distinct_append)
      moreover have "headers ! j \<noteq> ''__proto__''"
        using noproto j(1) by (metis nth_mem)
      ultimately have "map_of ?res (headers ! j) = Some (coerce (nth_opt (vals ?row) (0 + j)))"
        using j(1) by (intro fill_row_value)
      then
      have "map_of ?res h = Some (coerce (nth_opt (vals ?row) j))"
        using j(2) by simp
      also have "nth_opt (vals ?row) j = Some (cell_text fmt (the (map_of ?row h)))"
        using j by (simp add: nth_opt_def vals_def)
      finally have r: "map_of ?res h = Some (coerce (Some (cell_text fmt (the (map_of ?row h)))))" .
      from cell [OF in_data True] obtain c where c: "map_of ?row h = Some c" "safe_cell fmt c"
        by blast
      show ?thesis
        using r c(1) safe_cell_text(5) [OF c(2)] by simp
    qed
    then have "map_of ?res = map_option null_if_empty \<circ> map_of ?row" by (rule ext)
    then show ?thesis using keys res by simp
  qed
  show ?thesis using len row_eq by blast
qed


lemma export_null_only:
  "exportToCSV fmt_integer inherited [[(''a'', CNull)]] ''out.csv''
     = Some (''out.csv'', ''a'' @ [CHR 0x0A])"
  by (simp add: exportToCSV_def csvContent_def object_keys_def isArrayIndex_def isDigit_def
      render_def)

lemma export_007:
  "exportToCSV fmt_integer inherited [[(''id'', CStr ''007'')]] ''out.csv''
     = Some (''out.csv'', ''id'' @ [CHR 0x0A] @ ''007'')"
  by (simp add: exportToCSV_def csvContent_def object_keys_def isArrayIndex_def isDigit_def
      render_def)

lemma parse_null_only: "parseCSV (''a'' @ [CHR 0x0A]) = []"
  by code_simp

lemma parse_007: "parseCSV (''id'' @ [CHR 0x0A] @ ''007'') = [[(''id'', CNum (Fin 7))]]"
  by code_simp

text \<open>
  Claim C5, as stated, at two one-record datasets.  The record whose only value is null is
  written as a blank last line, which the parser trims away: no record comes back.  The
  string \<open>007\<close> comes back as the number 7.  (No inherited member is read, so the
  parameter \<open>inherited\<close> plays no part; it is taken empty.)
\<close>

theorem export_parse_counterexample:
  "exportToCSV fmt_integer (\<lambda>h. None) [[(''a'', CNull)]] ''out.csv''
     = Some (''out.csv'', ''a'' @ [CHR 0x0A])
   \<and> parseCSV (''a'' @ [CHR 0x0A]) = []
   \<and> exportToCSV fmt_integer (\<lambda>h. None) [[(''id'', CStr ''007'')]] ''out.csv''
     = Some (''out.csv'', ''id'' @ [CHR 0x0A] @ ''007'')
   \<and> parseCSV (''id'' @ [CHR 0x0A] @ ''007'') = [[(''id'', CNum (Fin 7))]]"
  using export_null_only [of "\<lambda>h. None"] export_007 [of "\<lambda>h. None"]
    parse_null_only parse_007
  by blast

text \<open>
  Claim C5, amended: for every dataset of N records as described above (non-empty, with a
  uniform non-empty set of plain, comma-free, distinct column names other than
  \<open>__proto__\<close>, and cells that are null, plain strings that are empty or that the parser
  leaves strings, or numbers other than NaN), exportToCSV writes a text whose parse has
  exactly N records, each with the column set of the record it comes from and with equal
  values, where null stands for the empty string.  With a single column, the last
  record's value must be neither null nor empty.
\<close>

theorem export_parse_roundtrip:
  assumes "exportable fmt data"
  shows "exportToCSV fmt inherited data filename = Some (filename, csvContent fmt inherited data)
         \<and> length (parseCSV (csvContent fmt inherited data)) = length data
         \<and> (\<forall>i < length data.
               fst ` set (parseCSV (csvContent fmt inherited data) ! i) = fst ` set (data ! i)
               \<and> map_of (parseCSV (csvContent fmt inherited data) ! i)
                   = map_option null_if_empty \<circ> map_of (data ! i))
         \<and> null_if_empty CNull = CNull \<and> null_if_empty (CStr []) = CNull
         \<and> (c \<noteq> CStr [] \<longrightarrow> null_if_empty c = c)"
proof -
  have "null_if_empty CNull = CNull" "null_if_empty (CStr []) = CNull"
    "c \<noteq> CStr [] \<longrightarrow> null_if_empty c = c"
    by (simp_all add: null_if_empty_def)
  moreover
  from assms have "data \<noteq> []" unfolding exportable_def by blast
  then have "exportToCSV fmt inherited data filename
               = Some (filename, csvContent fmt inherited data)"
    by (simp add: exportToCSV_def)
  ultimately show ?thesis
    using export_parse_rows [OF assms, of inherited] by blast
qed

theorem export_parse_roundtrip_witness:
  "exportable fmt_integer
     [[(''id'', CStr ''P1''), (''7'', CNum (Fin 12)), (''note'', CStr ''a,b'')],
      [(''id'', CStr ''P2''), (''7'', CNull), (''note'', CStr [])]]
   \<and> length (parseCSV (csvContent fmt_integer (\<lambda>h. None)
     [[(''id'', CStr ''P1''), (''7'', CNum (Fin 12)), (''note'', CStr ''a,b'')],
      [(''id'', CStr ''P2''), (''7'', CNull), (''note'', CStr [])]])) = 2
   \<and> map_of (parseCSV (csvContent fmt_integer (\<lambda>h. None)
     [[(''id'', CStr ''P1''), (''7'', CNum (Fin 12)), (''note'', CStr ''a,b'')],
      [(''id'', CStr ''P2''), (''7'', CNull), (''note'', CStr [])]]) ! 0) ''note''
     = Some (CStr ''a,b'')
   \<and> map_of (parseCSV (csvContent fmt_integer (\<lambda>h. None)
     [[(''id'', CStr ''P1''), (''7'', CNum (Fin 12)), (''note'', CStr ''a,b'')],
      [(''id'', CStr ''P2''), (''7'', CNull), (''note'', CStr [])]]) ! 1) ''note''
     = Some CNull
   \<and> csvContent fmt_integer (\<lambda>h. None)
     [[(''id'', CStr ''P1''), (''7'', CNum (Fin 12)), (''note'', CStr ''a,b'')],
      [(''id'', CStr ''P2''), (''7'', CNull), (''note'', CStr [])]]
     = ''7,id,note'' @ [CHR 0x0A] @ ''12,P1,'' @ [CHR 0x22] @ ''a,b'' @ [CHR 0x22]
       @ [CHR 0x0A] @ '',P2,''"
proof -
  let ?D = "[[(''id'', CStr ''P1''), (''7'', CNum (Fin 12)), (''note'', CStr ''a,b'')],
      [(''id'', CStr ''P2''), (''7'', CNull), (''note'', CStr [])]]"
  have e: "exportable fmt_integer ?D"
    unfolding exportable_def safe_header_def safe_cell_def plain_text_def formats_number_def
      number_chars_def
    by code_simp
  have t: "csvContent fmt_integer (\<lambda>h. None) ?D
     = ''7,id,note'' @ [CHR 0x0A] @ ''12,P1,'' @ [CHR 0x22] @ ''a,b'' @ [CHR 0x22]
       @ [CHR 0x0A] @ '',P2,''"
    by code_simp
  from export_parse_roundtrip [OF e, of "\<lambda>h. None" "''out.csv''"]
  have l: "length (parseCSV (csvContent fmt_integer (\<lambda>h. None) ?D)) = length ?D"
    and m: "\<forall>i < length ?D. map_of (parseCSV (csvContent fmt_integer (\<lambda>h. None) ?D) ! i)
              = map_option null_if_empty \<circ> map_of (?D ! i)"
    by blast+
  from m [rule_format, of 0]
  have a: "map_of (parseCSV (csvContent fmt_integer (\<lambda>h. None) ?D) ! 0) ''note''
             = Some (CStr ''a,b'')"
    by (simp add: null_if_empty_def)
  from m [rule_format, of 1]
  have b: "map_of (parseCSV (csvContent fmt_integer (\<lambda>h. None) ?D) ! 1) ''note''
             = Some CNull"
    by (simp add: null_if_empty_def)
  show ?thesis using e l a b t by simp
qed

section \<open>Properties of readUploadedFile\<close>

lemma endsWith_last: "endsWith s suffix \<Longrightarrow> suffix \<noteq> [] \<Longrightarrow> last s = last suffix"
proof -
  assume a: "endsWith s suffix" and ne: "suffix \<noteq> []"
  then have "s = take (length s - length suffix) s @ suffix"
    by (metis append_take_drop_id endsWith_def)
  then show ?thesis
    using ne by (metis last_appendR)
qed

lemma csv_excludes_sheets:
  "endsWith s ''.xlsx'' \<or> endsWith s ''.xls'' \<Longrightarrow> \<not> endsWith s ''.csv''"
  using endsWith_last [of s "''.xlsx''"] endsWith_last [of s "''.xls''"]
    endsWith_last [of s "''.csv''"]
  by auto

text \<open>
  Claim C8, as stated, at the file \<open>notes.txt\<close>: the error is the fixed message, which
  contains neither the file's name nor its extension.
\<close>

theorem readUploadedFile_error_counterexample:
  "readUploadedFile (\<lambda>b. Inr [])
      \<lparr>name = ''notes.txt'', text_content = ''a,b'', array_buffer = []\<rparr>
     = Inl (Error ''Unsupported file type. Please upload .csv or .xlsx'')
   \<and> \<not> includes_str ''Unsupported file type. Please upload .csv or .xlsx'' ''notes.txt''
   \<and> \<not> includes_str ''Unsupported file type. Please upload .csv or .xlsx'' ''.txt''"
  by code_simp

text \<open>
  Claim C8, amended: a file whose lower-cased name ends in \<open>.csv\<close> takes the
  delimited-text path (the parse of its text); one whose lower-cased name ends in
  \<open>.xlsx\<close> or \<open>.xls\<close> takes the spreadsheet path (whatever the spreadsheet reader
  gives on its buffer); any other file fails with one fixed error, the same for every
  such file, whose message names the suffixes \<open>.csv\<close> and \<open>.xlsx\<close> and carries nothing
  of the rejected file.
\<close>

theorem readUploadedFile_dispatch:
  "(endsWith (toLowerCase (name f)) ''.csv'' \<longrightarrow>
      readUploadedFile xlsx f = Inr (parseCSV (text_content f)))
   \<and> (endsWith (toLowerCase (name f)) ''.xlsx'' \<or> endsWith (toLowerCase (name f)) ''.xls'' \<longrightarrow>
      readUploadedFile xlsx f = xlsx (array_buffer f))
   \<and> (\<not> endsWith (toLowerCase (name f)) ''.csv'' \<and> \<not> endsWith (toLowerCase (name f)) ''.xlsx''
        \<and> \<not> endsWith (toLowerCase (name f)) ''.xls'' \<longrightarrow>
      readUploadedFile xlsx f = Inl (Error unsupported_message))
   \<and> unsupported_message = ''Unsupported file type. Please upload .csv or .xlsx''
   \<and> includes_str unsupported_message ''.csv'' \<and> includes_str unsupported_message ''.xlsx''"
proof -
  have 1: "endsWith (toLowerCase (name f)) ''.csv'' \<longrightarrow>
      readUploadedFile xlsx f = Inr (parseCSV (text_content f))"
    by (simp add: readUploadedFile_def)
  have 2: "endsWith (toLowerCase (name f)) ''.xlsx'' \<or> endsWith (toLowerCase (name f)) ''.xls'' \<longrightarrow>
      readUploadedFile xlsx f = xlsx (array_buffer f)"
    using csv_excludes_sheets [of "toLowerCase (name f)"]
    by (auto simp: readUploadedFile_def Let_def)
  have 3: "\<not> endsWith (toLowerCase (name f)) ''.csv'' \<and> \<not> endsWith (toLowerCase (name f)) ''.xlsx''
        \<and> \<not> endsWith (toLowerCase (name f)) ''.xls'' \<longrightarrow>
      readUploadedFile xlsx f = Inl (Error unsupported_message)"
    by (simp add: readUploadedFile_def unsupported_message_def)
  have 4: "includes_str unsupported_message ''.csv''"
    by code_simp
  have 5: "includes_str unsupported_message ''.xlsx''"
    by code_simp
  show ?thesis
    using 1 2 3 4 5 unsupported_message_def by blast
qed

theorem readUploadedFile_dispatch_witness:
  "readUploadedFile (\<lambda>b. Inl (Error b))
      \<lparr>name = ''Cohort.XLS'', text_content = ''a,b'', array_buffer = ''bytes''\<rparr>
     = Inl (Error ''bytes'')
   \<and> readUploadedFile (\<lambda>b. Inl (Error b))
      \<lparr>name = ''Cohort.CSV'', text_content = ''a,b'', array_buffer = ''bytes''\<rparr>
     = Inr (parseCSV ''a,b'')
   \<and> readUploadedFile (\<lambda>b. Inl (Error b))
      \<lparr>name = ''cohort.csv.bak'', text_content = ''a,b'', array_buffer = ''bytes''\<rparr>
     = Inl (Error unsupported_message)"
proof -
  have a: "endsWith (toLowerCase ''Cohort.XLS'') ''.xls''" by code_simp
  have b: "endsWith (toLowerCase ''Cohort.CSV'') ''.csv''" by code_simp
  have c: "\<not> endsWith (toLowerCase ''cohort.csv.bak'') ''.csv''
         \<and> \<not> endsWith (toLowerCase ''cohort.csv.bak'') ''.xlsx''
         \<and> \<not> endsWith (toLowerCase ''cohort.csv.bak'') ''.xls''" by code_simp
  show ?thesis
    using a b c
      readUploadedFile_dispatch [of "\<lparr>name = ''Cohort.XLS'', text_content = ''a,b'', array_buffer = ''bytes''\<rparr>" "\<lambda>b. Inl (Error b)"]
      readUploadedFile_dispatch [of "\<lparr>name = ''Cohort.CSV'', text_content = ''a,b'', array_buffer = ''bytes''\<rparr>" "\<lambda>b. Inl (Error b)"]
      readUploadedFile_dispatch [of "\<lparr>name = ''cohort.csv.bak'', text_content = ''a,b'', array_buffer = ''bytes''\<rparr>" "\<lambda>b. Inl (Error b)"]
    by simp
qed

end
